theory Spec2Isabelle
  imports Main
begin

section \<open>Data model of main.py\<close>

datatype PieceType = KING | QUEEN | ROOK | BISHOP | KNIGHT | PAWN

datatype PieceColor = WHITE | BLACK

type_synonym pos = "int \<times> int"

text \<open>
  A \<open>Piece\<close> object. Pieces are mutable Python objects held by reference in the grid,
  so the model keeps them in a store (\<open>heap\<close>) and the grid holds references.
\<close>

record Piece =
  piece_type :: PieceType
  color :: PieceColor
  position :: pos
  has_moved :: bool

type_synonym ref = nat

datatype error = IndexError | AttributeError

text \<open>
  The state of a \<open>ChessBoard\<close>: the grid \<open>self.board\<close> (a list of row lists, each cell
  \<open>None\<close> or a reference to a piece), \<open>self.current_turn\<close>, the store of piece objects
  and the next unused reference (used by the constructor only). The rows are distinct
  list objects, as \<open>__init__\<close> builds them.
\<close>

record ChessBoard =
  board :: "ref option list list"
  current_turn :: PieceColor
  heap :: "ref \<Rightarrow> Piece"
  next_ref :: ref

subsection \<open>Python list indexing\<close>

text \<open>
  \<open>xs[i]\<close> accepts \<open>-len(xs) \<le> i < len(xs)\<close>, a negative index counting from the end;
  any other index raises IndexError.
\<close>

definition py_index :: "nat \<Rightarrow> int \<Rightarrow> nat option" where
  "py_index n i =
     (if 0 \<le> i \<and> i < int n then Some (nat i)
      else if - int n \<le> i \<and> i < 0 then Some (nat (int n + i))
      else None)"

definition getitem :: "'a list \<Rightarrow> int \<Rightarrow> error + 'a" where
  "getitem xs i = (case py_index (length xs) i of None \<Rightarrow> Inl IndexError | Some k \<Rightarrow> Inr (xs ! k))"

text \<open>\<open>b[row][col] = v\<close> on a list of row lists.\<close>

definition setitem2 :: "'a list list \<Rightarrow> int \<Rightarrow> int \<Rightarrow> 'a \<Rightarrow> error + 'a list list" where
  "setitem2 b row col v =
     (case py_index (length b) row of
        None \<Rightarrow> Inl IndexError
      | Some i \<Rightarrow>
          (case py_index (length (b ! i)) col of
             None \<Rightarrow> Inl IndexError
           | Some j \<Rightarrow> Inr (b[i := (b ! i)[j := v]])))"

text \<open>Sequencing of a computation that may raise, without and with state.\<close>

definition and_then :: "error + 'a \<Rightarrow> ('a \<Rightarrow> error + 'b) \<Rightarrow> error + 'b" where
  "and_then m f = (case m of Inl e \<Rightarrow> Inl e | Inr x \<Rightarrow> f x)"

definition seq :: "(error + 'a) \<times> ChessBoard \<Rightarrow> ('a \<Rightarrow> ChessBoard \<Rightarrow> (error + 'b) \<times> ChessBoard)
    \<Rightarrow> (error + 'b) \<times> ChessBoard" where
  "seq m f = (case m of (Inl e, s) \<Rightarrow> (Inl e, s) | (Inr x, s) \<Rightarrow> f x s)"

section \<open>ChessBoard\<close>

subsection \<open>Construction\<close>

text \<open>\<open>Piece(piece_type, color, position)\<close>: a new object, \<open>has_moved = False\<close>.\<close>

definition new_piece :: "ChessBoard \<Rightarrow> PieceType \<Rightarrow> PieceColor \<Rightarrow> pos \<Rightarrow> ref \<times> ChessBoard" where
  "new_piece s t c p =
     (next_ref s,
      s\<lparr>heap := (heap s)(next_ref s := \<lparr>piece_type = t, color = c, position = p, has_moved = False\<rparr>),
        next_ref := Suc (next_ref s)\<rparr>)"

text \<open>\<open>self.board[row][col] = Piece(t, c, (row, col))\<close> with constant in-range indices.\<close>

definition place_new :: "ChessBoard \<Rightarrow> nat \<Rightarrow> nat \<Rightarrow> PieceType \<Rightarrow> PieceColor \<Rightarrow> ChessBoard" where
  "place_new s row col t c =
     (let (r, s1) = new_piece s t c (int row, int col)
      in s1\<lparr>board := (board s1)[row := (board s1 ! row)[col := Some r]]\<rparr>)"

definition back_row :: "PieceType list" where
  "back_row = [ROOK, KNIGHT, BISHOP, QUEEN, KING, BISHOP, KNIGHT, ROOK]"

fun pawns_loop :: "nat list \<Rightarrow> ChessBoard \<Rightarrow> ChessBoard" where
  "pawns_loop [] s = s"
| "pawns_loop (col # cols) s =
     pawns_loop cols (place_new (place_new s 1 col PAWN BLACK) 6 col PAWN WHITE)"

fun back_loop :: "nat list \<Rightarrow> ChessBoard \<Rightarrow> ChessBoard" where
  "back_loop [] s = s"
| "back_loop (col # cols) s =
     back_loop cols (place_new (place_new s 0 col (back_row ! col) BLACK) 7 col (back_row ! col) WHITE)"

definition initialize_board :: "ChessBoard \<Rightarrow> ChessBoard" where
  "initialize_board s = back_loop [0..<8] (pawns_loop [0..<8] s)"

definition dummy_piece :: Piece where
  "dummy_piece = \<lparr>piece_type = PAWN, color = WHITE, position = (0, 0), has_moved = False\<rparr>"

text \<open>\<open>ChessBoard()\<close>.\<close>

definition init :: ChessBoard where
  "init = initialize_board
     \<lparr>board = replicate 8 (replicate 8 None), current_turn = WHITE,
      heap = (\<lambda>_. dummy_piece), next_ref = 0\<rparr>"

subsection \<open>get_piece, set_piece\<close>

definition get_piece :: "ChessBoard \<Rightarrow> int \<Rightarrow> int \<Rightarrow> error + ref option" where
  "get_piece s row col =
     (if 0 \<le> row \<and> row < 8 \<and> 0 \<le> col \<and> col < 8
      then and_then (getitem (board s) row) (\<lambda>cells. getitem cells col)
      else Inr None)"

definition set_piece :: "ChessBoard \<Rightarrow> int \<Rightarrow> int \<Rightarrow> ref option \<Rightarrow> (error + unit) \<times> ChessBoard" where
  "set_piece s row col piece =
     (let s1 = (case piece of
                  None \<Rightarrow> s
                | Some p \<Rightarrow> s\<lparr>heap := (heap s)(p := (heap s p)\<lparr>position := (row, col)\<rparr>)\<rparr>)
      in case setitem2 (board s1) row col piece of
           Inl e \<Rightarrow> (Inl e, s1)
         | Inr b \<Rightarrow> (Inr (), s1\<lparr>board := b\<rparr>))"

subsection \<open>Per-piece validators\<close>

text \<open>
  A validator that dereferences \<open>piece\<close> raises AttributeError when the from-square is
  empty; \<open>is_valid_move\<close> never calls it so.
\<close>

definition validate_pawn :: "ChessBoard \<Rightarrow> pos \<Rightarrow> pos \<Rightarrow> error + bool" where
  "validate_pawn s from_pos to_pos =
     (let (from_row, from_col) = from_pos; (to_row, to_col) = to_pos in
      and_then (get_piece s from_row from_col) (\<lambda>piece.
        case piece of
          None \<Rightarrow> Inl AttributeError
        | Some p \<Rightarrow>
            let direction = (if color (heap s p) = WHITE then - 1 else 1 :: int) in
            if from_col = to_col \<and> to_row = from_row + direction
            then and_then (get_piece s to_row to_col) (\<lambda>t. Inr (t = None))
            else if from_col = to_col \<and>
                    ((color (heap s p) = WHITE \<and> from_row = 6 \<and> to_row = 4) \<or>
                     (color (heap s p) = BLACK \<and> from_row = 1 \<and> to_row = 3))
            then and_then (get_piece s (from_row + direction) from_col) (\<lambda>m.
                   if m \<noteq> None then Inr False
                   else and_then (get_piece s to_row to_col) (\<lambda>t. Inr (t = None)))
            else if \<bar>to_col - from_col\<bar> = 1 \<and> to_row = from_row + direction
            then and_then (get_piece s to_row to_col) (\<lambda>target.
                   case target of
                     None \<Rightarrow> Inr False
                   | Some t \<Rightarrow> Inr (color (heap s t) \<noteq> color (heap s p)))
            else Inr False))"

definition validate_knight :: "pos \<Rightarrow> pos \<Rightarrow> bool" where
  "validate_knight from_pos to_pos =
     (let dr = \<bar>fst to_pos - fst from_pos\<bar>; dc = \<bar>snd to_pos - snd from_pos\<bar>
      in (dr, dc) \<in> set [(2, 1), (1, 2)])"

text \<open>
  The bishop's \<open>while (r, c) != (tr, tc)\<close> loop. It does not end when it is entered
  stepping away from the target, so it is a partial function: \<open>None\<close> is not returning.
\<close>

partial_function (option) bishop_loop ::
    "ChessBoard \<Rightarrow> int \<Rightarrow> int \<Rightarrow> int \<Rightarrow> int \<Rightarrow> int \<Rightarrow> int \<Rightarrow> (error + bool) option" where
  "bishop_loop s r c tr tc row_step col_step =
     (if (r, c) \<noteq> (tr, tc) then
        (case get_piece s r c of
           Inl e \<Rightarrow> Some (Inl e)
         | Inr (Some p) \<Rightarrow> Some (Inr False)
         | Inr None \<Rightarrow> bishop_loop s (r + row_step) (c + col_step) tr tc row_step col_step)
      else Some (Inr True))"

declare bishop_loop.simps [code]

definition validate_bishop :: "ChessBoard \<Rightarrow> pos \<Rightarrow> pos \<Rightarrow> (error + bool) option" where
  "validate_bishop s from_pos to_pos =
     (let (fr, fc) = from_pos; (tr, tc) = to_pos in
      if \<bar>tr - fr\<bar> \<noteq> \<bar>tc - fc\<bar> then Some (Inr False)
      else let row_step = (if tr > fr then 1 else - 1);
               col_step = (if tc > fc then 1 else - 1)
           in bishop_loop s (fr + row_step) (fc + col_step) tr tc row_step col_step)"

text \<open>
  The \<open>for\<close> loops of the rook and of castling: the first occupied square among
  \<open>(fr, c)\<close>, \<open>c\<close> in the range, returns False.
\<close>

fun row_loop :: "ChessBoard \<Rightarrow> int \<Rightarrow> int list \<Rightarrow> error + bool" where
  "row_loop s fr [] = Inr True"
| "row_loop s fr (c # cs) =
     and_then (get_piece s fr c) (\<lambda>x. if x \<noteq> None then Inr False else row_loop s fr cs)"

fun col_loop :: "ChessBoard \<Rightarrow> int \<Rightarrow> int list \<Rightarrow> error + bool" where
  "col_loop s fc [] = Inr True"
| "col_loop s fc (r # rs) =
     and_then (get_piece s r fc) (\<lambda>x. if x \<noteq> None then Inr False else col_loop s fc rs)"

text \<open>\<open>range(a, b)\<close> over the integers.\<close>

definition py_range :: "int \<Rightarrow> int \<Rightarrow> int list" where
  "py_range a b = [a..b - 1]"

definition validate_rook :: "ChessBoard \<Rightarrow> pos \<Rightarrow> pos \<Rightarrow> error + bool" where
  "validate_rook s from_pos to_pos =
     (let (fr, fc) = from_pos; (tr, tc) = to_pos in
      if fr \<noteq> tr \<and> fc \<noteq> tc then Inr False
      else if fr = tr then row_loop s fr (py_range (min fc tc + 1) (max fc tc))
      else col_loop s fc (py_range (min fr tr + 1) (max fr tr)))"

definition validate_queen :: "ChessBoard \<Rightarrow> pos \<Rightarrow> pos \<Rightarrow> (error + bool) option" where
  "validate_queen s from_pos to_pos =
     (case validate_bishop s from_pos to_pos of
        None \<Rightarrow> None
      | Some (Inl e) \<Rightarrow> Some (Inl e)
      | Some (Inr True) \<Rightarrow> Some (Inr True)
      | Some (Inr False) \<Rightarrow> Some (validate_rook s from_pos to_pos))"

definition validate_king :: "ChessBoard \<Rightarrow> pos \<Rightarrow> pos \<Rightarrow> error + bool" where
  "validate_king s from_pos to_pos =
     (let (fr, fc) = from_pos; (tr, tc) = to_pos in
      and_then (get_piece s fr fc) (\<lambda>piece.
        if \<bar>tr - fr\<bar> \<le> 1 \<and> \<bar>tc - fc\<bar> \<le> 1 then Inr True
        else case piece of
          None \<Rightarrow> Inl AttributeError
        | Some p \<Rightarrow>
            if \<not> has_moved (heap s p) \<and> fr = tr \<and> \<bar>tc - fc\<bar> = 2 then
              let rook_col = (if tc < fc then 0 else 7) in
              and_then (get_piece s fr rook_col) (\<lambda>rook.
                case rook of
                  None \<Rightarrow> Inr False
                | Some r \<Rightarrow>
                    if piece_type (heap s r) \<noteq> ROOK \<or> has_moved (heap s r) then Inr False
                    else row_loop s fr (py_range (min fc rook_col + 1) (max fc rook_col)))
            else Inr False))"

subsection \<open>is_valid_move\<close>

definition is_valid_move :: "ChessBoard \<Rightarrow> pos \<Rightarrow> pos \<Rightarrow> (error + bool) option" where
  "is_valid_move s from_pos to_pos =
     (case get_piece s (fst from_pos) (snd from_pos) of
        Inl e \<Rightarrow> Some (Inl e)
      | Inr piece \<Rightarrow>
     (case get_piece s (fst to_pos) (snd to_pos) of
        Inl e \<Rightarrow> Some (Inl e)
      | Inr target \<Rightarrow>
     (case piece of
        None \<Rightarrow> Some (Inr False)
      | Some p \<Rightarrow>
          if (case target of None \<Rightarrow> False | Some t \<Rightarrow> color (heap s t) = color (heap s p))
          then Some (Inr False)
          else if piece_type (heap s p) = PAWN then Some (validate_pawn s from_pos to_pos)
          else if piece_type (heap s p) = KNIGHT then Some (Inr (validate_knight from_pos to_pos))
          else if piece_type (heap s p) = BISHOP then validate_bishop s from_pos to_pos
          else if piece_type (heap s p) = ROOK then Some (validate_rook s from_pos to_pos)
          else if piece_type (heap s p) = QUEEN then validate_queen s from_pos to_pos
          else if piece_type (heap s p) = KING then Some (validate_king s from_pos to_pos)
          else Some (Inr False))))"

subsection \<open>The same methods with the state threaded\<close>

text \<open>
  \<open>get_piece\<close>, the validators and \<open>is_valid_move\<close> once more, statement by
  statement, each returning the state it leaves beside its value or its exception, as
  \<open>set_piece\<close> and \<open>move_piece\<close> do: every call receives the state its predecessor left
  and every attribute is read in the state current at the read.
\<close>

definition get_piece_st :: "ChessBoard \<Rightarrow> int \<Rightarrow> int \<Rightarrow> (error + ref option) \<times> ChessBoard" where
  "get_piece_st s row col =
     (if 0 \<le> row \<and> row < 8 \<and> 0 \<le> col \<and> col < 8
      then (and_then (getitem (board s) row) (\<lambda>cells. getitem cells col), s)
      else (Inr None, s))"

definition validate_pawn_st :: "ChessBoard \<Rightarrow> pos \<Rightarrow> pos \<Rightarrow> (error + bool) \<times> ChessBoard" where
  "validate_pawn_st s from_pos to_pos =
     (let (from_row, from_col) = from_pos; (to_row, to_col) = to_pos in
      seq (get_piece_st s from_row from_col) (\<lambda>piece s1.
        case piece of
          None \<Rightarrow> (Inl AttributeError, s1)
        | Some p \<Rightarrow>
            let direction = (if color (heap s1 p) = WHITE then - 1 else 1 :: int) in
            if from_col = to_col \<and> to_row = from_row + direction
            then seq (get_piece_st s1 to_row to_col) (\<lambda>t s2. (Inr (t = None), s2))
            else if from_col = to_col \<and>
                    ((color (heap s1 p) = WHITE \<and> from_row = 6 \<and> to_row = 4) \<or>
                     (color (heap s1 p) = BLACK \<and> from_row = 1 \<and> to_row = 3))
            then seq (get_piece_st s1 (from_row + direction) from_col) (\<lambda>m s2.
                   if m \<noteq> None then (Inr False, s2)
                   else seq (get_piece_st s2 to_row to_col) (\<lambda>t s3. (Inr (t = None), s3)))
            else if \<bar>to_col - from_col\<bar> = 1 \<and> to_row = from_row + direction
            then seq (get_piece_st s1 to_row to_col) (\<lambda>target s2.
                   case target of
                     None \<Rightarrow> (Inr False, s2)
                   | Some t \<Rightarrow> (Inr (color (heap s2 t) \<noteq> color (heap s2 p)), s2))
            else (Inr False, s1)))"

definition validate_knight_st :: "ChessBoard \<Rightarrow> pos \<Rightarrow> pos \<Rightarrow> (error + bool) \<times> ChessBoard" where
  "validate_knight_st s from_pos to_pos =
     (let dr = \<bar>fst to_pos - fst from_pos\<bar>; dc = \<bar>snd to_pos - snd from_pos\<bar>
      in (Inr ((dr, dc) \<in> set [(2, 1), (1, 2)]), s))"

partial_function (option) bishop_loop_st ::
    "ChessBoard \<Rightarrow> int \<Rightarrow> int \<Rightarrow> int \<Rightarrow> int \<Rightarrow> int \<Rightarrow> int \<Rightarrow> ((error + bool) \<times> ChessBoard) option" where
  "bishop_loop_st s r c tr tc row_step col_step =
     (if (r, c) \<noteq> (tr, tc) then
        (case get_piece_st s r c of
           (Inl e, s1) \<Rightarrow> Some (Inl e, s1)
         | (Inr (Some p), s1) \<Rightarrow> Some (Inr False, s1)
         | (Inr None, s1) \<Rightarrow> bishop_loop_st s1 (r + row_step) (c + col_step) tr tc row_step col_step)
      else Some (Inr True, s))"

declare bishop_loop_st.simps [code]

definition validate_bishop_st :: "ChessBoard \<Rightarrow> pos \<Rightarrow> pos \<Rightarrow> ((error + bool) \<times> ChessBoard) option" where
  "validate_bishop_st s from_pos to_pos =
     (let (fr, fc) = from_pos; (tr, tc) = to_pos in
      if \<bar>tr - fr\<bar> \<noteq> \<bar>tc - fc\<bar> then Some (Inr False, s)
      else let row_step = (if tr > fr then 1 else - 1);
               col_step = (if tc > fc then 1 else - 1)
           in bishop_loop_st s (fr + row_step) (fc + col_step) tr tc row_step col_step)"

fun row_loop_st :: "ChessBoard \<Rightarrow> int \<Rightarrow> int list \<Rightarrow> (error + bool) \<times> ChessBoard" where
  "row_loop_st s fr [] = (Inr True, s)"
| "row_loop_st s fr (c # cs) =
     (case get_piece_st s fr c of
        (Inl e, s1) \<Rightarrow> (Inl e, s1)
      | (Inr x, s1) \<Rightarrow> if x \<noteq> None then (Inr False, s1) else row_loop_st s1 fr cs)"

fun col_loop_st :: "ChessBoard \<Rightarrow> int \<Rightarrow> int list \<Rightarrow> (error + bool) \<times> ChessBoard" where
  "col_loop_st s fc [] = (Inr True, s)"
| "col_loop_st s fc (r # rs) =
     (case get_piece_st s r fc of
        (Inl e, s1) \<Rightarrow> (Inl e, s1)
      | (Inr x, s1) \<Rightarrow> if x \<noteq> None then (Inr False, s1) else col_loop_st s1 fc rs)"

definition validate_rook_st :: "ChessBoard \<Rightarrow> pos \<Rightarrow> pos \<Rightarrow> (error + bool) \<times> ChessBoard" where
  "validate_rook_st s from_pos to_pos =
     (let (fr, fc) = from_pos; (tr, tc) = to_pos in
      if fr \<noteq> tr \<and> fc \<noteq> tc then (Inr False, s)
      else if fr = tr then row_loop_st s fr (py_range (min fc tc + 1) (max fc tc))
      else col_loop_st s fc (py_range (min fr tr + 1) (max fr tr)))"

definition validate_queen_st :: "ChessBoard \<Rightarrow> pos \<Rightarrow> pos \<Rightarrow> ((error + bool) \<times> ChessBoard) option" where
  "validate_queen_st s from_pos to_pos =
     (case validate_bishop_st s from_pos to_pos of
        None \<Rightarrow> None
      | Some (Inl e, s1) \<Rightarrow> Some (Inl e, s1)
      | Some (Inr True, s1) \<Rightarrow> Some (Inr True, s1)
      | Some (Inr False, s1) \<Rightarrow> Some (validate_rook_st s1 from_pos to_pos))"

definition validate_king_st :: "ChessBoard \<Rightarrow> pos \<Rightarrow> pos \<Rightarrow> (error + bool) \<times> ChessBoard" where
  "validate_king_st s from_pos to_pos =
     (let (fr, fc) = from_pos; (tr, tc) = to_pos in
      seq (get_piece_st s fr fc) (\<lambda>piece s1.
        if \<bar>tr - fr\<bar> \<le> 1 \<and> \<bar>tc - fc\<bar> \<le> 1 then (Inr True, s1)
        else case piece of
          None \<Rightarrow> (Inl AttributeError, s1)
        | Some p \<Rightarrow>
            if \<not> has_moved (heap s1 p) \<and> fr = tr \<and> \<bar>tc - fc\<bar> = 2 then
              let rook_col = (if tc < fc then 0 else 7) in
              seq (get_piece_st s1 fr rook_col) (\<lambda>rook s2.
                case rook of
                  None \<Rightarrow> (Inr False, s2)
                | Some r \<Rightarrow>
                    if piece_type (heap s2 r) \<noteq> ROOK \<or> has_moved (heap s2 r) then (Inr False, s2)
                    else row_loop_st s2 fr (py_range (min fc rook_col + 1) (max fc rook_col)))
            else (Inr False, s1)))"

definition is_valid_move_st :: "ChessBoard \<Rightarrow> pos \<Rightarrow> pos \<Rightarrow> ((error + bool) \<times> ChessBoard) option" where
  "is_valid_move_st s from_pos to_pos =
     (case get_piece_st s (fst from_pos) (snd from_pos) of
        (Inl e, s1) \<Rightarrow> Some (Inl e, s1)
      | (Inr piece, s1) \<Rightarrow>
     (case get_piece_st s1 (fst to_pos) (snd to_pos) of
        (Inl e, s2) \<Rightarrow> Some (Inl e, s2)
      | (Inr target, s2) \<Rightarrow>
     (case piece of
        None \<Rightarrow> Some (Inr False, s2)
      | Some p \<Rightarrow>
          if (case target of None \<Rightarrow> False | Some t \<Rightarrow> color (heap s2 t) = color (heap s2 p))
          then Some (Inr False, s2)
          else if piece_type (heap s2 p) = PAWN then Some (validate_pawn_st s2 from_pos to_pos)
          else if piece_type (heap s2 p) = KNIGHT then Some (validate_knight_st s2 from_pos to_pos)
          else if piece_type (heap s2 p) = BISHOP then validate_bishop_st s2 from_pos to_pos
          else if piece_type (heap s2 p) = ROOK then Some (validate_rook_st s2 from_pos to_pos)
          else if piece_type (heap s2 p) = QUEEN then validate_queen_st s2 from_pos to_pos
          else if piece_type (heap s2 p) = KING then Some (validate_king_st s2 from_pos to_pos)
          else Some (Inr False, s2))))"

subsection \<open>move_piece\<close>

text \<open>
  \<open>move_piece\<close> calls \<open>get_piece\<close> and \<open>is_valid_move\<close> by their values: on an 8 by 8 board
  the threaded forms return those values and the state they were given
  (\<open>is_valid_move_st_agrees\<close>).
\<close>

text \<open>\<open>p.has_moved = True\<close>.\<close>

definition set_has_moved :: "ChessBoard \<Rightarrow> ref \<Rightarrow> ChessBoard" where
  "set_has_moved s p = s\<lparr>heap := (heap s)(p := (heap s p)\<lparr>has_moved := True\<rparr>)\<rparr>"

text \<open>The block under \<open># Castling\<close>.\<close>

definition castling :: "ChessBoard \<Rightarrow> ref \<Rightarrow> int \<Rightarrow> int \<Rightarrow> int \<Rightarrow> (error + unit) \<times> ChessBoard" where
  "castling s p from_row from_col to_col =
     (if piece_type (heap s p) = KING \<and> \<bar>from_col - to_col\<bar> = 2 then
        let rook_col = (if to_col = 2 then 0 else 7);
            rook_target_col = (if to_col = 2 then 3 else 5)
        in case get_piece s from_row rook_col of
             Inl e \<Rightarrow> (Inl e, s)
           | Inr rook \<Rightarrow>
               seq (set_piece s from_row rook_col None) (\<lambda>_ s1.
               seq (set_piece s1 from_row rook_target_col rook) (\<lambda>_ s2.
                 case rook of
                   None \<Rightarrow> (Inl AttributeError, s2)
                 | Some r \<Rightarrow> (Inr (), set_has_moved s2 r)))
      else (Inr (), s))"

text \<open>The block under \<open># Execute move\<close>.\<close>

definition execute_move :: "ChessBoard \<Rightarrow> ref \<Rightarrow> pos \<Rightarrow> pos \<Rightarrow> (error + unit) \<times> ChessBoard" where
  "execute_move s p from_pos to_pos =
     seq (set_piece s (fst from_pos) (snd from_pos) None) (\<lambda>_ s1.
     seq (set_piece s1 (fst to_pos) (snd to_pos) (Some p)) (\<lambda>_ s2.
       (Inr (), set_has_moved s2 p)))"

text \<open>The block under \<open># Pawn promotion\<close>.\<close>

definition pawn_promotion :: "ChessBoard \<Rightarrow> ref \<Rightarrow> int \<Rightarrow> ChessBoard" where
  "pawn_promotion s p to_row =
     (if piece_type (heap s p) = PAWN \<and> (to_row = 0 \<or> to_row = 7)
      then s\<lparr>heap := (heap s)(p := (heap s p)\<lparr>piece_type := QUEEN\<rparr>)\<rparr>
      else s)"

text \<open>The statement under \<open># Switch turns\<close>.\<close>

definition switch_turns :: "ChessBoard \<Rightarrow> ChessBoard" where
  "switch_turns s = s\<lparr>current_turn := (if current_turn s = WHITE then BLACK else WHITE)\<rparr>"

definition move_piece :: "ChessBoard \<Rightarrow> pos \<Rightarrow> pos \<Rightarrow> ((error + bool) \<times> ChessBoard) option" where
  "move_piece s from_pos to_pos =
     (let (from_row, from_col) = from_pos; (to_row, to_col) = to_pos in
      case get_piece s from_row from_col of
        Inl e \<Rightarrow> Some (Inl e, s)
      | Inr None \<Rightarrow> Some (Inr False, s)
      | Inr (Some p) \<Rightarrow>
          if color (heap s p) \<noteq> current_turn s then Some (Inr False, s)
          else (case is_valid_move s from_pos to_pos of
                  None \<Rightarrow> None
                | Some (Inl e) \<Rightarrow> Some (Inl e, s)
                | Some (Inr False) \<Rightarrow> Some (Inr False, s)
                | Some (Inr True) \<Rightarrow>
                    Some (seq (castling s p from_row from_col to_col) (\<lambda>_ s1.
                          seq (execute_move s1 p from_pos to_pos) (\<lambda>_ s2.
                            (Inr True, switch_turns (pawn_promotion s2 p to_row)))))))"

section \<open>Vocabulary of the properties\<close>

text \<open>The grid is 8 by 8: \<open>__init__\<close> builds it so and no method changes its shape.\<close>

definition wf_board :: "ChessBoard \<Rightarrow> bool" where
  "wf_board s \<longleftrightarrow> length (board s) = 8 \<and> list_all (\<lambda>cells. length cells = 8) (board s)"

definition on_board :: "int \<Rightarrow> int \<Rightarrow> bool" where
  "on_board row col \<longleftrightarrow> 0 \<le> row \<and> row < 8 \<and> 0 \<le> col \<and> col < 8"

text \<open>The occupant of a square, read from the grid; no occupant off the board.\<close>

definition cell :: "ChessBoard \<Rightarrow> int \<Rightarrow> int \<Rightarrow> ref option" where
  "cell s row col = (if on_board row col then board s ! nat row ! nat col else None)"

definition other :: "PieceColor \<Rightarrow> PieceColor" where
  "other side = (if side = WHITE then BLACK else WHITE)"

text \<open>
  A pair of squares is a legal move for the side to move: the from-square holds a piece
  of that side and \<open>is_valid_move\<close> returns True.
\<close>

definition legal_for_turn :: "ChessBoard \<Rightarrow> pos \<Rightarrow> pos \<Rightarrow> bool" where
  "legal_for_turn s from_pos to_pos =
     (case cell s (fst from_pos) (snd from_pos) of
        None \<Rightarrow> False
      | Some p \<Rightarrow> color (heap s p) = current_turn s \<and>
                  is_valid_move s from_pos to_pos = Some (Inr True))"

text \<open>
  The pawn rule in the words of the specification: (a) one step forward on the same column
  to an empty square, (b) two steps forward on the same column from the starting rank with
  the intermediate and the destination squares empty, (c) one step diagonally forward onto
  a square held by an opposing piece.
\<close>

definition pawn_rule :: "ChessBoard \<Rightarrow> PieceColor \<Rightarrow> pos \<Rightarrow> pos \<Rightarrow> bool" where
  "pawn_rule s side from_pos to_pos =
     (let direction = (if side = WHITE then - 1 else 1);
          start = (if side = WHITE then 6 else 1)
      in (snd to_pos = snd from_pos \<and> fst to_pos = fst from_pos + direction \<and>
          cell s (fst to_pos) (snd to_pos) = None) \<or>
         (snd to_pos = snd from_pos \<and> fst to_pos = fst from_pos + 2 * direction \<and>
          fst from_pos = start \<and>
          cell s (fst from_pos + direction) (snd from_pos) = None \<and>
          cell s (fst to_pos) (snd to_pos) = None) \<or>
         (fst to_pos = fst from_pos + direction \<and> \<bar>snd to_pos - snd from_pos\<bar> = 1 \<and>
          (case cell s (fst to_pos) (snd to_pos) of
             None \<Rightarrow> False
           | Some q \<Rightarrow> color (heap s q) \<noteq> side)))"

subsection \<open>Engine operations and their effect on the state\<close>

datatype op = GetPiece int int | IsValidMove pos pos | MovePiece pos pos

text \<open>
  The state after one call: \<open>None\<close> when the call does not return; a call that raises
  leaves the state as it is at the raise.
\<close>

fun after :: "op \<Rightarrow> ChessBoard \<Rightarrow> ChessBoard option" where
  "after (GetPiece row col) s = Some (snd (get_piece_st s row col))"
| "after (IsValidMove from_pos to_pos) s = map_option snd (is_valid_move_st s from_pos to_pos)"
| "after (MovePiece from_pos to_pos) s =
     (case move_piece s from_pos to_pos of None \<Rightarrow> None | Some (_, s') \<Rightarrow> Some s')"

fun run :: "op list \<Rightarrow> ChessBoard \<Rightarrow> ChessBoard option" where
  "run [] s = Some s"
| "run (x # xs) s = (case after x s of None \<Rightarrow> None | Some s' \<Rightarrow> run xs s')"

text \<open>The states reached from the initial position by accepted moves.\<close>

inductive reachable :: "ChessBoard \<Rightarrow> bool" where
  start: "reachable init"
| step: "reachable s \<Longrightarrow> move_piece s from_pos to_pos = Some (Inr True, s') \<Longrightarrow> reachable s'"

subsection \<open>Terminal-state queries\<close>

text \<open>
  \<open>check_game_state\<close> and \<open>computer_move\<close> call \<open>is_checkmate\<close>, \<open>is_stalemate\<close> and
  \<open>get_all_valid_moves\<close> on the board, and \<open>ChessBoard\<close> defines none of them. They are
  modelled from section 4.4 of the specification, over \<open>is_valid_move\<close> and \<open>move_piece\<close>
  of the source.
\<close>

definition squares :: "pos list" where
  "squares = concat (map (\<lambda>row. map (\<lambda>col. (row, col)) [0..7]) [0..7])"

definition passes :: "ChessBoard \<Rightarrow> pos \<Rightarrow> pos \<Rightarrow> bool" where
  "passes s from_pos to_pos \<longleftrightarrow> is_valid_move s from_pos to_pos = Some (Inr True)"

definition side_at :: "ChessBoard \<Rightarrow> PieceColor \<Rightarrow> pos \<Rightarrow> bool" where
  "side_at s side sq =
     (case get_piece s (fst sq) (snd sq) of
        Inr (Some p) \<Rightarrow> color (heap s p) = side
      | _ \<Rightarrow> False)"

definition king_at :: "ChessBoard \<Rightarrow> PieceColor \<Rightarrow> pos \<Rightarrow> bool" where
  "king_at s side sq =
     (case get_piece s (fst sq) (snd sq) of
        Inr (Some p) \<Rightarrow> color (heap s p) = side \<and> piece_type (heap s p) = KING
      | _ \<Rightarrow> False)"

text \<open>
  Modelled from the spec: \<open>isInCheck(side)\<close>, missing from \<open>ChessBoard\<close>: some piece of the
  opposing side has a legal move onto the square of a king of \<open>side\<close>.
\<close>

definition isInCheck :: "ChessBoard \<Rightarrow> PieceColor \<Rightarrow> bool" where
  "isInCheck s side =
     list_ex (\<lambda>k. king_at s side k \<and>
                  list_ex (\<lambda>a. side_at s (other side) a \<and> passes s a k) squares) squares"

text \<open>
  The move applied hypothetically by \<open>side\<close> (with the turn given to \<open>side\<close>) leaves a king
  of \<open>side\<close> in check.
\<close>

definition leaves_in_check :: "ChessBoard \<Rightarrow> PieceColor \<Rightarrow> pos \<Rightarrow> pos \<Rightarrow> bool" where
  "leaves_in_check s side from_pos to_pos =
     (case move_piece (s\<lparr>current_turn := side\<rparr>) from_pos to_pos of
        Some (Inr True, s') \<Rightarrow> isInCheck s' side
      | _ \<Rightarrow> False)"

text \<open>
  Modelled from the spec: \<open>allLegalMoves(side)\<close>, missing from \<open>ChessBoard\<close> (the source
  calls it \<open>get_all_valid_moves\<close>): for every piece of \<open>side\<close> and every board square, the
  pairs passing \<open>is_valid_move\<close> that do not leave the mover's own king in check.
\<close>

definition allLegalMoves :: "ChessBoard \<Rightarrow> PieceColor \<Rightarrow> (pos \<times> pos) list" where
  "allLegalMoves s side =
     concat (map (\<lambda>from_pos.
       if side_at s side from_pos
       then map (\<lambda>to_pos. (from_pos, to_pos))
              (filter (\<lambda>to_pos. passes s from_pos to_pos \<and> \<not> leaves_in_check s side from_pos to_pos)
                 squares)
       else []) squares)"

text \<open>
  Modelled from the spec: \<open>isCheckmate(side)\<close>, missing from \<open>ChessBoard\<close> (the source calls
  it \<open>is_checkmate\<close>).
\<close>

definition isCheckmate :: "ChessBoard \<Rightarrow> PieceColor \<Rightarrow> bool" where
  "isCheckmate s side \<longleftrightarrow> isInCheck s side \<and> allLegalMoves s side = []"

subsection \<open>Constructed positions\<close>

definition heap_of :: "Piece list \<Rightarrow> ref \<Rightarrow> Piece" where
  "heap_of ps r = (if r < length ps then ps ! r else dummy_piece)"

definition empty_row :: "ref option list" where
  "empty_row = [None, None, None, None, None, None, None, None]"

definition mk :: "PieceType \<Rightarrow> PieceColor \<Rightarrow> pos \<Rightarrow> bool \<Rightarrow> Piece" where
  "mk t c p m = \<lparr>piece_type = t, color = c, position = p, has_moved = m\<rparr>"

text \<open>
  Black to move, the black king alone in the corner (0,0), the white queen on (1,1)
  guarded by the white king on (2,2).
\<close>

definition mate_position :: ChessBoard where
  "mate_position =
     \<lparr>board = [ [Some 0, None, None, None, None, None, None, None],
               [None, Some 1, None, None, None, None, None, None],
               [None, None, Some 2, None, None, None, None, None],
               empty_row, empty_row, empty_row, empty_row, empty_row],
      current_turn = BLACK,
      heap = heap_of [mk KING BLACK (0, 0) True, mk QUEEN WHITE (1, 1) True, mk KING WHITE (2, 2) True],
      next_ref = 3\<rparr>"

text \<open>
  White to move, the white king and both white rooks unmoved on their home squares
  (7,4), (7,0), (7,7), the black king on (0,4).
\<close>

definition castle_position :: ChessBoard where
  "castle_position =
     \<lparr>board = [ [None, None, None, None, Some 3, None, None, None],
               empty_row, empty_row, empty_row, empty_row, empty_row, empty_row,
               [Some 1, None, None, None, Some 0, None, None, Some 2]],
      current_turn = WHITE,
      heap = heap_of [mk KING WHITE (7, 4) False, mk ROOK WHITE (7, 0) False,
                      mk ROOK WHITE (7, 7) False, mk KING BLACK (0, 4) False],
      next_ref = 4\<rparr>"

text \<open>
  White to move, the white king unmoved on (7,6), the white rooks on (7,0) and (7,7),
  the black king on (0,4).
\<close>

definition shifted_king_position :: ChessBoard where
  "shifted_king_position =
     \<lparr>board = [ [None, None, None, None, Some 3, None, None, None],
               empty_row, empty_row, empty_row, empty_row, empty_row, empty_row,
               [Some 1, None, None, None, None, None, Some 0, Some 2]],
      current_turn = WHITE,
      heap = heap_of [mk KING WHITE (7, 6) False, mk ROOK WHITE (7, 0) False,
                      mk ROOK WHITE (7, 7) False, mk KING BLACK (0, 4) False],
      next_ref = 4\<rparr>"

text \<open>White to move, a white pawn on (1,0), the kings on (7,4) and (0,4).\<close>

definition promotion_position :: ChessBoard where
  "promotion_position =
     \<lparr>board = [ [None, None, None, None, Some 2, None, None, None],
               [Some 0, None, None, None, None, None, None, None],
               empty_row, empty_row, empty_row, empty_row, empty_row,
               [None, None, None, None, Some 1, None, None, None]],
      current_turn = WHITE,
      heap = heap_of [mk PAWN WHITE (1, 0) True, mk KING WHITE (7, 4) True, mk KING BLACK (0, 4) True],
      next_ref = 3\<rparr>"

subsection \<open>The effect of set\_piece\<close>

text \<open>
  An index that \<open>self.board[row][col] = piece\<close> accepts on an 8 by 8 grid, the cell a
  negative index denotes, and the state \<open>set_piece\<close> leaves.
\<close>

definition indexable :: "int \<Rightarrow> bool" where
  "indexable i \<longleftrightarrow> - 8 \<le> i \<and> i < 8"

definition wrap :: "int \<Rightarrow> int" where
  "wrap i = (if i < 0 then i + 8 else i)"

definition placed :: "ChessBoard \<Rightarrow> int \<Rightarrow> int \<Rightarrow> ref option \<Rightarrow> ChessBoard" where
  "placed s row col v = snd (set_piece s row col v)"

section \<open>Reading the grid\<close>

lemma and_then_simps [simp]:
  "and_then (Inl e) f = Inl e" "and_then (Inr x) f = f x"
  by (simp_all add: and_then_def)

lemma seq_simps [simp]:
  "seq (Inl e, s) f = (Inl e, s)" "seq (Inr x, s) f = f x s"
  by (simp_all add: seq_def)

lemma wf_row: "wf_board s \<Longrightarrow> i < 8 \<Longrightarrow> length (board s ! i) = 8"
  by (simp add: wf_board_def list_all_length)

lemma get_piece_wf: "wf_board s \<Longrightarrow> get_piece s row col = Inr (cell s row col)"
  by (auto simp: get_piece_def cell_def on_board_def getitem_def py_index_def wf_board_def
      list_all_length)

lemma cell_on_board: "cell s row col = Some p \<Longrightarrow> on_board row col"
  by (simp add: cell_def split: if_splits)

section \<open>is\_valid\_move returns\<close>

lemma bishop_loop_steps:
  assumes wf: "wf_board s" and rs: "\<bar>rs\<bar> = 1" and cs: "\<bar>cs\<bar> = 1"
  shows "tr = r + int k * rs \<Longrightarrow> tc = c + int k * cs
    \<Longrightarrow> \<exists>b. bishop_loop s r c tr tc rs cs = Some (Inr b)"
proof (induction k arbitrary: r c)
  case 0
  then show ?case by (auto simp: bishop_loop.simps)
next
  case (Suc k)
  have ne: "(r, c) \<noteq> (tr, tc)" using Suc.prems rs by auto
  have "\<exists>b. bishop_loop s (r + rs) (c + cs) tr tc rs cs = Some (Inr b)"
    using Suc.prems by (intro Suc.IH) (simp_all add: algebra_simps)
  then show ?case using ne
    by (subst bishop_loop.simps) (auto simp: get_piece_wf [OF wf] split: option.splits)
qed

lemma validate_bishop_total:
  assumes wf: "wf_board s" and ne: "from_pos \<noteq> to_pos"
  shows "\<exists>b. validate_bishop s from_pos to_pos = Some (Inr b)"
proof (cases from_pos; cases to_pos)
  fix fr fc tr tc assume f: "from_pos = (fr, fc)" and t: "to_pos = (tr, tc)"
  show ?thesis
  proof (cases "\<bar>tr - fr\<bar> = \<bar>tc - fc\<bar>")
    case False
    then show ?thesis by (auto simp: validate_bishop_def f t)
  next
    case True
    define rs :: int where "rs = (if tr > fr then 1 else - 1)"
    define cs :: int where "cs = (if tc > fc then 1 else - 1)"
    define k where "k = nat (\<bar>tr - fr\<bar> - 1)"
    have pos: "\<bar>tr - fr\<bar> \<ge> 1" using True ne f t by auto
    have "tr = (fr + rs) + int k * rs" "tc = (fc + cs) + int k * cs"
      using True pos by (auto simp: rs_def cs_def k_def algebra_simps split: if_splits)
    then have "\<exists>b. bishop_loop s (fr + rs) (fc + cs) tr tc rs cs = Some (Inr b)"
      by (intro bishop_loop_steps [OF wf]) (auto simp: rs_def cs_def)
    then show ?thesis using True by (simp add: validate_bishop_def f t rs_def cs_def Let_def)
  qed
qed

lemma row_loop_total: "wf_board s \<Longrightarrow> \<exists>b. row_loop s fr cs = Inr b"
  by (induction cs) (auto simp: get_piece_wf)

lemma col_loop_total: "wf_board s \<Longrightarrow> \<exists>b. col_loop s fc rs = Inr b"
  by (induction rs) (auto simp: get_piece_wf)

lemma validate_rook_total: "wf_board s \<Longrightarrow> \<exists>b. validate_rook s f t = Inr b"
  by (cases f; cases t) (auto simp: validate_rook_def row_loop_total col_loop_total)

lemma validate_queen_total:
  assumes "wf_board s" "f \<noteq> t"
  shows "\<exists>b. validate_queen s f t = Some (Inr b)"
  using validate_bishop_total [OF assms] validate_rook_total [OF assms(1), of f t]
  by (auto simp: validate_queen_def split: bool.splits)

lemma not_isl_ex: "\<not> isl x \<Longrightarrow> \<exists>b. x = Inr b"
  by (cases x) simp_all

lemma validate_pawn_total:
  assumes "wf_board s" "cell s (fst f) (snd f) = Some p"
  shows "\<exists>b. validate_pawn s f t = Inr b"
proof -
  have "\<not> isl (validate_pawn s f t)"
    using assms
    by (cases f; cases t)
      (simp add: validate_pawn_def get_piece_wf Let_def split: option.splits)
  then show ?thesis by (rule not_isl_ex)
qed

lemma row_loop_not_isl: "wf_board s \<Longrightarrow> \<not> isl (row_loop s fr cs)"
  by (induction cs) (simp_all add: get_piece_wf)

lemma validate_king_total:
  assumes "wf_board s" "cell s (fst f) (snd f) = Some p"
  shows "\<exists>b. validate_king s f t = Inr b"
proof -
  have "\<not> isl (validate_king s f t)"
    using assms
    by (cases f; cases t)
      (simp add: validate_king_def get_piece_wf Let_def row_loop_not_isl split: option.splits)
  then show ?thesis by (rule not_isl_ex)
qed

lemma is_valid_move_empty:
  "wf_board s \<Longrightarrow> cell s (fst f) (snd f) = None \<Longrightarrow> is_valid_move s f t = Some (Inr False)"
  by (simp add: is_valid_move_def get_piece_wf)

lemma is_valid_move_same:
  "wf_board s \<Longrightarrow> is_valid_move s f f = Some (Inr False)"
  by (simp add: is_valid_move_def get_piece_wf split: option.splits)

lemma is_valid_move_total:
  assumes wf: "wf_board s"
  shows "\<exists>b. is_valid_move s f t = Some (Inr b)"
proof (cases "cell s (fst f) (snd f)")
  case None
  then show ?thesis by (auto simp: is_valid_move_empty [OF wf])
next
  case (Some p)
  show ?thesis
  proof (cases "f = t")
    case True
    then show ?thesis by (auto simp: is_valid_move_same [OF wf])
  next
    case False
    show ?thesis
      unfolding is_valid_move_def get_piece_wf [OF wf] Some
      using validate_pawn_total [OF wf Some, of t] validate_king_total [OF wf Some, of t]
        validate_rook_total [OF wf, of f t] validate_queen_total [OF wf False]
        validate_bishop_total [OF wf False]
      by (auto split: option.splits)
  qed
qed

section \<open>set\_piece\<close>

lemma py_index_8: "py_index 8 i = (if indexable i then Some (nat (wrap i)) else None)"
  by (auto simp: py_index_def indexable_def wrap_def)

lemma wrap_bounds: "indexable i \<Longrightarrow> 0 \<le> wrap i \<and> wrap i < 8"
  by (auto simp: indexable_def wrap_def)

lemma wrap_on_board: "0 \<le> i \<Longrightarrow> i < 8 \<Longrightarrow> wrap i = i \<and> indexable i"
  by (auto simp: indexable_def wrap_def)

lemma set_piece_ok:
  assumes "wf_board s" "indexable row" "indexable col"
  shows "set_piece s row col v = (Inr (), placed s row col v)"
  using assms wrap_bounds [of row]
  by (cases v)
    (auto simp: placed_def set_piece_def Let_def setitem2_def py_index_8 wf_board_def list_all_length)

lemma set_piece_fail:
  assumes "wf_board s" "\<not> (indexable row \<and> indexable col)"
  shows "fst (set_piece s row col v) = Inl IndexError"
  using assms wrap_bounds [of row]
  by (cases v)
    (auto simp: set_piece_def Let_def setitem2_def py_index_8 wf_board_def list_all_length)

lemma heap_placed:
  "heap (placed s row col v) =
     (case v of None \<Rightarrow> heap s | Some p \<Rightarrow> (heap s)(p := (heap s p)\<lparr>position := (row, col)\<rparr>))"
  by (cases v) (auto simp: placed_def set_piece_def Let_def split: sum.splits)

lemma turn_placed: "current_turn (placed s row col v) = current_turn s"
  by (cases v) (auto simp: placed_def set_piece_def Let_def split: sum.splits)

lemma board_placed:
  assumes "wf_board s" "indexable row" "indexable col"
  shows "board (placed s row col v) =
    (board s)[nat (wrap row) := (board s ! nat (wrap row))[nat (wrap col) := v]]"
  using assms wrap_bounds [of row]
  by (cases v)
    (auto simp: placed_def set_piece_def Let_def setitem2_def py_index_8 wf_board_def list_all_length)

lemma setitem2_shape:
  "setitem2 b row col v = Inr b' \<Longrightarrow>
     length b' = length b \<and> (\<forall>i < length b. length (b' ! i) = length (b ! i))"
proof -
  assume a: "setitem2 b row col v = Inr b'"
  then obtain i j where b': "b' = b[i := (b ! i)[j := v]]"
    by (auto simp: setitem2_def split: option.splits)
  have "length (b' ! k) = length (b ! k)" if "k < length b" for k
    using that unfolding b' by (cases "k = i") simp_all
  then show ?thesis by (simp add: b')
qed

lemma wf_placed: "wf_board s \<Longrightarrow> wf_board (placed s row col v)"
  by (cases v)
    (auto simp: placed_def set_piece_def Let_def wf_board_def list_all_length
      dest!: setitem2_shape split: sum.splits)

lemma cell_placed:
  assumes "wf_board s" "indexable row" "indexable col"
  shows "cell (placed s row col v) x y = (if x = wrap row \<and> y = wrap col then v else cell s x y)"
proof -
  have b: "0 \<le> wrap row" "wrap row < 8" "0 \<le> wrap col" "wrap col < 8"
    using assms wrap_bounds by auto
  have len: "length (board s) = 8" "\<And>i. i < 8 \<Longrightarrow> length (board s ! i) = 8"
    using assms(1) by (auto simp: wf_board_def list_all_length)
  show ?thesis
    using b len unfolding cell_def board_placed [OF assms] on_board_def
    by (auto simp: nth_list_update nat_eq_iff)
qed

section \<open>The constructed positions are 8 by 8\<close>

lemma wf_castle_position: "wf_board castle_position"
  by (simp add: wf_board_def castle_position_def empty_row_def)

lemma wf_mate_position: "wf_board mate_position"
  by (simp add: wf_board_def mate_position_def empty_row_def)

lemma wf_shifted_king_position: "wf_board shifted_king_position"
  by (simp add: wf_board_def shifted_king_position_def empty_row_def)

lemma wf_promotion_position: "wf_board promotion_position"
  by (simp add: wf_board_def promotion_position_def empty_row_def)

section \<open>get\_piece\<close>

text \<open>
  Claim C10. \<open>get_piece\<close> is total over all integer coordinates: on every 8 by 8 board it
  raises nothing; when the row or the column lies outside 0..7 it returns \<open>None\<close>, and for
  coordinates in range it returns the content of the grid cell.
\<close>

theorem get_piece_total:
  assumes "wf_board s"
  shows "get_piece s row col =
    Inr (if 0 \<le> row \<and> row < 8 \<and> 0 \<le> col \<and> col < 8 then board s ! nat row ! nat col else None)"
  using assms by (simp add: get_piece_wf cell_def on_board_def)

theorem get_piece_total_witness:
  "wf_board mate_position \<and> get_piece mate_position 1 1 = Inr (Some 1) \<and>
   get_piece mate_position 8 (- 1) = Inr None"
  using get_piece_total [OF wf_mate_position, of 1 1] get_piece_total [OF wf_mate_position, of 8 "- 1"]
    wf_mate_position
  by (simp add: mate_position_def)

section \<open>is\_valid\_move leaves the state alone\<close>

lemma get_piece_st_eq: "get_piece_st s row col = (get_piece s row col, s)"
  by (simp add: get_piece_st_def get_piece_def)

lemma get_piece_st_wf: "wf_board s \<Longrightarrow> get_piece_st s row col = (Inr (cell s row col), s)"
  by (simp add: get_piece_st_eq get_piece_wf)

lemma validate_pawn_st_pure:
  assumes wf: "wf_board s"
  shows "validate_pawn_st s f t = (validate_pawn s f t, s)"
proof -
  obtain fr fc tr tc where ft: "f = (fr, fc)" "t = (tr, tc)"
    by (cases f; cases t) blast
  show ?thesis
  proof (cases "cell s fr fc")
    case None
    then show ?thesis
      by (simp add: ft validate_pawn_st_def validate_pawn_def get_piece_st_wf [OF wf]
          get_piece_wf [OF wf])
  next
    case (Some p)
    show ?thesis
    proof (cases "color (heap s p)")
      case WHITE
      then show ?thesis
        using Some
        by (auto simp: ft validate_pawn_st_def validate_pawn_def Let_def get_piece_st_wf [OF wf]
            get_piece_wf [OF wf] split: option.splits)
    next
      case BLACK
      then show ?thesis
        using Some
        by (auto simp: ft validate_pawn_st_def validate_pawn_def Let_def get_piece_st_wf [OF wf]
            get_piece_wf [OF wf] split: option.splits)
    qed
  qed
qed

lemma validate_knight_st_pure: "validate_knight_st s f t = (Inr (validate_knight f t), s)"
  by (simp add: validate_knight_st_def validate_knight_def Let_def)

lemma row_loop_st_pure: "wf_board s \<Longrightarrow> row_loop_st s fr cs = (row_loop s fr cs, s)"
  by (induction cs) (simp_all add: get_piece_st_wf get_piece_wf)

lemma col_loop_st_pure: "wf_board s \<Longrightarrow> col_loop_st s fc rs = (col_loop s fc rs, s)"
  by (induction rs) (simp_all add: get_piece_st_wf get_piece_wf)

lemma validate_rook_st_pure:
  "wf_board s \<Longrightarrow> validate_rook_st s f t = (validate_rook s f t, s)"
  by (cases f; cases t)
    (simp add: validate_rook_st_def validate_rook_def row_loop_st_pure col_loop_st_pure)

lemma validate_king_st_pure:
  assumes "wf_board s"
  shows "validate_king_st s f t = (validate_king s f t, s)"
  using assms
  by (cases f; cases t)
    (simp add: validate_king_st_def validate_king_def get_piece_st_wf get_piece_wf Let_def
      row_loop_st_pure split: option.splits)

lemma bishop_loop_st_steps:
  assumes wf: "wf_board s" and rs: "\<bar>rs\<bar> = 1" and cs: "\<bar>cs\<bar> = 1"
  shows "tr = r + int k * rs \<Longrightarrow> tc = c + int k * cs
    \<Longrightarrow> \<exists>b. bishop_loop_st s r c tr tc rs cs = Some (Inr b, s) \<and>
            bishop_loop s r c tr tc rs cs = Some (Inr b)"
proof (induction k arbitrary: r c)
  case 0
  then show ?case by (auto simp: bishop_loop.simps bishop_loop_st.simps)
next
  case (Suc k)
  have ne: "(r, c) \<noteq> (tr, tc)" using Suc.prems rs by auto
  have "\<exists>b. bishop_loop_st s (r + rs) (c + cs) tr tc rs cs = Some (Inr b, s) \<and>
      bishop_loop s (r + rs) (c + cs) tr tc rs cs = Some (Inr b)"
    using Suc.prems by (intro Suc.IH) (simp_all add: algebra_simps)
  then obtain b where b: "bishop_loop_st s (r + rs) (c + cs) tr tc rs cs = Some (Inr b, s)"
    "bishop_loop s (r + rs) (c + cs) tr tc rs cs = Some (Inr b)" by blast
  show ?case
  proof (cases "cell s r c")
    case None
    have "bishop_loop_st s r c tr tc rs cs = Some (Inr b, s)"
      using ne None b(1) by (subst bishop_loop_st.simps) (simp add: get_piece_st_wf [OF wf])
    moreover have "bishop_loop s r c tr tc rs cs = Some (Inr b)"
      using ne None b(2) by (subst bishop_loop.simps) (simp add: get_piece_wf [OF wf])
    ultimately show ?thesis by blast
  next
    case (Some p)
    have "bishop_loop_st s r c tr tc rs cs = Some (Inr False, s)"
      using ne Some by (subst bishop_loop_st.simps) (simp add: get_piece_st_wf [OF wf])
    moreover have "bishop_loop s r c tr tc rs cs = Some (Inr False)"
      using ne Some by (subst bishop_loop.simps) (simp add: get_piece_wf [OF wf])
    ultimately show ?thesis by blast
  qed
qed

lemma validate_bishop_st_pure:
  assumes wf: "wf_board s" and ne: "from_pos \<noteq> to_pos"
  shows "\<exists>b. validate_bishop_st s from_pos to_pos = Some (Inr b, s) \<and>
    validate_bishop s from_pos to_pos = Some (Inr b)"
proof (cases from_pos; cases to_pos)
  fix fr fc tr tc assume f: "from_pos = (fr, fc)" and t: "to_pos = (tr, tc)"
  show ?thesis
  proof (cases "\<bar>tr - fr\<bar> = \<bar>tc - fc\<bar>")
    case False
    then show ?thesis by (auto simp: validate_bishop_st_def validate_bishop_def f t)
  next
    case True
    define rs :: int where "rs = (if tr > fr then 1 else - 1)"
    define cs :: int where "cs = (if tc > fc then 1 else - 1)"
    define k where "k = nat (\<bar>tr - fr\<bar> - 1)"
    have pos: "\<bar>tr - fr\<bar> \<ge> 1" using True ne f t by auto
    have "tr = (fr + rs) + int k * rs" "tc = (fc + cs) + int k * cs"
      using True pos by (auto simp: rs_def cs_def k_def algebra_simps split: if_splits)
    then have "\<exists>b. bishop_loop_st s (fr + rs) (fc + cs) tr tc rs cs = Some (Inr b, s) \<and>
        bishop_loop s (fr + rs) (fc + cs) tr tc rs cs = Some (Inr b)"
      by (intro bishop_loop_st_steps [OF wf]) (auto simp: rs_def cs_def)
    then show ?thesis
      using True by (simp add: validate_bishop_st_def validate_bishop_def f t rs_def cs_def Let_def)
  qed
qed

lemma validate_queen_st_pure:
  assumes wf: "wf_board s" and ne: "f \<noteq> t"
  shows "\<exists>b. validate_queen_st s f t = Some (Inr b, s) \<and> validate_queen s f t = Some (Inr b)"
proof -
  obtain b where b: "validate_bishop_st s f t = Some (Inr b, s)"
    "validate_bishop s f t = Some (Inr b)"
    using validate_bishop_st_pure [OF wf ne] by blast
  obtain b' where b': "validate_rook s f t = Inr b'"
    using validate_rook_total [OF wf] by blast
  show ?thesis
    using b b' by (cases b) (auto simp: validate_queen_st_def validate_queen_def
        validate_rook_st_pure [OF wf])
qed

lemma is_valid_move_st_agrees:
  assumes wf: "wf_board s"
  shows "\<exists>b. is_valid_move_st s f t = Some (Inr b, s) \<and> is_valid_move s f t = Some (Inr b)"
proof (cases "cell s (fst f) (snd f)")
  case None
  then show ?thesis
    by (auto simp: is_valid_move_st_def get_piece_st_wf [OF wf] is_valid_move_empty [OF wf])
next
  case (Some p)
  show ?thesis
  proof (cases "f = t")
    case True
    then show ?thesis
      using Some
      by (auto simp: is_valid_move_st_def get_piece_st_wf [OF wf] is_valid_move_same [OF wf])
  next
    case False
    obtain bp where bp: "validate_pawn s f t = Inr bp"
      using validate_pawn_total [OF wf Some] by blast
    obtain bk where bk: "validate_king s f t = Inr bk"
      using validate_king_total [OF wf Some] by blast
    obtain br where br: "validate_rook s f t = Inr br"
      using validate_rook_total [OF wf] by blast
    obtain bq where bq: "validate_queen_st s f t = Some (Inr bq, s)"
      "validate_queen s f t = Some (Inr bq)"
      using validate_queen_st_pure [OF wf False] by blast
    obtain bb where bb: "validate_bishop_st s f t = Some (Inr bb, s)"
      "validate_bishop s f t = Some (Inr bb)"
      using validate_bishop_st_pure [OF wf False] by blast
    show ?thesis
      using bp bk br bq bb
      by (auto simp: is_valid_move_st_def is_valid_move_def get_piece_st_wf [OF wf]
          get_piece_wf [OF wf] Some validate_pawn_st_pure [OF wf] validate_king_st_pure [OF wf]
          validate_rook_st_pure [OF wf] validate_knight_st_pure split: option.splits)
  qed
qed

text \<open>
  Claim C7. \<open>is_valid_move\<close> is pure with respect to the board: for every 8 by 8 board and
  every pair of coordinates the call, with the state threaded through every statement of
  the method and of the validator it dispatches to, returns a boolean, and the state it
  leaves (every square's occupant, every field of every piece, the current turn) is the
  state it was given.
\<close>

theorem is_valid_move_pure:
  assumes "wf_board s"
  shows "\<exists>b. is_valid_move_st s from_pos to_pos = Some (Inr b, s)"
  using is_valid_move_st_agrees [OF assms, of from_pos to_pos] by blast

theorem is_valid_move_pure_witness:
  "wf_board castle_position \<and>
   (\<exists>b. is_valid_move_st castle_position (7, 4) (7, 6) = Some (Inr b, castle_position))"
  using is_valid_move_pure [OF wf_castle_position, of "(7, 4)" "(7, 6)"] wf_castle_position
  by blast

section \<open>Rejected moves\<close>

text \<open>
  Claim C3. For every 8 by 8 board and every pair of squares that is not a legal move for
  the side to move (the from-square is empty, holds a piece of the other side, or the piece
  rule fails), \<open>move_piece\<close> returns False and the whole state is unchanged: the grid, every
  field of every piece and the current turn. It holds for coordinates off the board too.
\<close>

theorem move_piece_rejects_unchanged:
  assumes wf: "wf_board s" and illegal: "\<not> legal_for_turn s from_pos to_pos"
  shows "move_piece s from_pos to_pos = Some (Inr False, s)"
proof -
  obtain fr fc tr tc where f: "from_pos = (fr, fc)" and t: "to_pos = (tr, tc)"
    by (cases from_pos; cases to_pos) blast
  show ?thesis
  proof (cases "cell s fr fc")
    case None
    then show ?thesis by (simp add: move_piece_def get_piece_wf [OF wf] f t)
  next
    case (Some p)
    obtain b where b: "is_valid_move s from_pos to_pos = Some (Inr b)"
      using is_valid_move_total [OF wf] by blast
    have "color (heap s p) = current_turn s \<Longrightarrow> \<not> b"
      using illegal Some b by (simp add: legal_for_turn_def f)
    then show ?thesis using Some b
      by (auto simp: move_piece_def get_piece_wf [OF wf] f t)
  qed
qed

text \<open>The white rook on (7,0) of the castling position does not move diagonally to (6,1).\<close>

theorem move_piece_rejects_unchanged_witness:
  "wf_board castle_position \<and> \<not> legal_for_turn castle_position (7, 0) (6, 1) \<and>
   move_piece castle_position (7, 0) (6, 1) = Some (Inr False, castle_position)"
proof -
  have illegal: "\<not> legal_for_turn castle_position (7, 0) (6, 1)"
    by code_simp
  show ?thesis
    using move_piece_rejects_unchanged [OF wf_castle_position illegal] wf_castle_position illegal
    by simp
qed

section \<open>The effect of move\_piece\<close>

lemma set_piece_wf:
  assumes "wf_board s"
  shows "set_piece s row col v =
    (if indexable row \<and> indexable col then Inr () else Inl IndexError, placed s row col v)"
proof (cases "indexable row \<and> indexable col")
  case True
  then show ?thesis using set_piece_ok [OF assms] by simp
next
  case False
  have "set_piece s row col v = (fst (set_piece s row col v), placed s row col v)"
    by (simp add: placed_def)
  then show ?thesis using set_piece_fail [OF assms False] False by simp
qed

lemma on_board_indexable: "on_board row col \<Longrightarrow> indexable row \<and> indexable col \<and> wrap row = row \<and> wrap col = col"
  by (auto simp: on_board_def indexable_def wrap_def)

lemma cell_placed_on_board:
  assumes "wf_board s" "on_board row col"
  shows "cell (placed s row col v) x y = (if x = row \<and> y = col then v else cell s x y)"
  using cell_placed [OF assms(1), of row col v x y] on_board_indexable [OF assms(2)] by simp

lemma set_has_moved_simps [simp]:
  "board (set_has_moved s p) = board s"
  "current_turn (set_has_moved s p) = current_turn s"
  "cell (set_has_moved s p) x y = cell s x y"
  "wf_board (set_has_moved s p) = wf_board s"
  "heap (set_has_moved s p) q = (if q = p then (heap s p)\<lparr>has_moved := True\<rparr> else heap s q)"
  by (simp_all add: set_has_moved_def cell_def wf_board_def)

lemma pawn_promotion_simps [simp]:
  "board (pawn_promotion s p r) = board s"
  "current_turn (pawn_promotion s p r) = current_turn s"
  "cell (pawn_promotion s p r) x y = cell s x y"
  "wf_board (pawn_promotion s p r) = wf_board s"
  "heap (pawn_promotion s p r) q =
     (if q = p \<and> piece_type (heap s p) = PAWN \<and> (r = 0 \<or> r = 7)
      then (heap s p)\<lparr>piece_type := QUEEN\<rparr> else heap s q)"
  by (simp_all add: pawn_promotion_def cell_def wf_board_def)

lemma switch_turns_simps [simp]:
  "board (switch_turns s) = board s"
  "current_turn (switch_turns s) = other (current_turn s)"
  "cell (switch_turns s) x y = cell s x y"
  "wf_board (switch_turns s) = wf_board s"
  "heap (switch_turns s) = heap s"
  by (simp_all add: switch_turns_def cell_def wf_board_def other_def)

lemma heap_placed_app:
  "heap (placed s row col v) q =
     (if v = Some q then (heap s q)\<lparr>position := (row, col)\<rparr> else heap s q)"
  by (cases v) (auto simp: heap_placed)

lemma execute_move_wf:
  assumes "wf_board s"  "on_board fr fc"
  shows "execute_move s p (fr, fc) (tr, tc) =
    (if indexable tr \<and> indexable tc
     then (Inr (), set_has_moved (placed (placed s fr fc None) tr tc (Some p)) p)
     else (Inl IndexError, placed (placed s fr fc None) tr tc (Some p)))"
  using on_board_indexable [OF assms(2)]
  by (simp add: execute_move_def set_piece_wf [OF assms(1)] set_piece_wf [OF wf_placed [OF assms(1)]])

lemma castling_wf:
  assumes "wf_board s" "on_board fr fc"
  shows "castling s p fr fc tc =
    (if piece_type (heap s p) = KING \<and> \<bar>fc - tc\<bar> = 2 then
       (let rook_col = (if tc = 2 then 0 else 7); rook_target_col = (if tc = 2 then 3 else 5);
            s2 = placed (placed s fr rook_col None) fr rook_target_col (cell s fr rook_col)
        in case cell s fr rook_col of
             None \<Rightarrow> (Inl AttributeError, s2)
           | Some r \<Rightarrow> (Inr (), set_has_moved s2 r))
     else (Inr (), s))"
proof -
  have i: "indexable fr" "indexable 0" "indexable 7" "indexable 3" "indexable 5"
    using assms(2) by (auto simp: on_board_def indexable_def)
  show ?thesis
    by (simp add: castling_def get_piece_wf [OF assms(1)] set_piece_wf [OF assms(1)]
        set_piece_wf [OF wf_placed [OF assms(1)]] i Let_def)
qed

lemma move_piece_wf:
  assumes "wf_board s"
  shows "move_piece s (fr, fc) (tr, tc) =
    (case cell s fr fc of
       None \<Rightarrow> Some (Inr False, s)
     | Some p \<Rightarrow>
         if color (heap s p) \<noteq> current_turn s then Some (Inr False, s)
         else if is_valid_move s (fr, fc) (tr, tc) = Some (Inr True)
         then Some (seq (castling s p fr fc tc) (\<lambda>_ s1.
                    seq (execute_move s1 p (fr, fc) (tr, tc)) (\<lambda>_ s2.
                      (Inr True, switch_turns (pawn_promotion s2 p tr)))))
         else Some (Inr False, s))"
  using is_valid_move_total [OF assms, of "(fr, fc)" "(tr, tc)"]
  by (auto simp: move_piece_def get_piece_wf [OF assms] split: option.splits)

lemma accepted_distinct:
  assumes "wf_board s" "move_piece s f t = Some (Inr True, s')"
  shows "f \<noteq> t"
proof
  assume "f = t"
  then have "is_valid_move s f t = Some (Inr False)"
    using is_valid_move_same [OF assms(1)] by simp
  then show False using assms
    by (cases f; cases t) (auto simp: move_piece_wf split: option.splits if_splits)
qed

lemma accepted_ordinary:
  assumes wf: "wf_board s" and to: "on_board tr tc" and p: "cell s fr fc = Some p"
    and nc: "\<not> (piece_type (heap s p) = KING \<and> \<bar>fc - tc\<bar> = 2)"
    and acc: "move_piece s (fr, fc) (tr, tc) = Some (Inr True, s')"
  shows "s' = switch_turns (pawn_promotion
           (set_has_moved (placed (placed s fr fc None) tr tc (Some p)) p) p tr)"
proof -
  have c: "castling s p fr fc tc = (Inr (), s)"
    using nc by (auto simp: castling_def)
  have e: "execute_move s p (fr, fc) (tr, tc) =
      (Inr (), set_has_moved (placed (placed s fr fc None) tr tc (Some p)) p)"
    using execute_move_wf [OF wf cell_on_board [OF p]] on_board_indexable [OF to] by simp
  show ?thesis
    using acc by (simp add: move_piece_wf [OF wf] p c e split: if_splits)
qed

lemma accepted_the:
  "map_option fst (move_piece s f t) = Some (Inr True) \<Longrightarrow>
   move_piece s f t = Some (Inr True, the (after (MovePiece f t) s))"
  by (cases "move_piece s f t") auto

section \<open>Accepted ordinary moves\<close>

text \<open>
  Claim C9 says that whenever \<open>move_piece\<close> returns True for a move that is not a castling
  move, exactly the two named squares change: the from-square becomes empty, the to-square
  holds the moved piece, and every other square keeps its occupant. The validators do not
  look at the range of the destination and \<open>set_piece\<close> indexes the grid unguarded, where
  a negative index counts from the end. In the initial position the white rook on (7,0) is
  offered (7,-3): \<open>move_piece\<close> returns True, the rook replaces the white bishop on (7,5),
  a square that was not named, and \<open>get_piece\<close> finds nothing at (7,-3).
\<close>

theorem rook_off_board_overwrites:
  "cell init 7 0 = Some 17 \<and> piece_type (heap init 17) = ROOK \<and>
   map_option fst (move_piece init (7, 0) (7, - 3)) = Some (Inr True) \<and>
   cell init 7 5 = Some 27 \<and>
   cell (the (after (MovePiece (7, 0) (7, - 3)) init)) 7 5 = Some 17 \<and>
   cell (the (after (MovePiece (7, 0) (7, - 3)) init)) 7 0 = None \<and>
   get_piece (the (after (MovePiece (7, 0) (7, - 3)) init)) 7 (- 3) = Inr None"
  by code_simp

text \<open>
  What holds of an accepted ordinary move when the destination is a square of the board:
  the from-square becomes empty, the to-square holds the moved piece, every other square
  holds the occupant it held before the call, and no piece object other than the moved
  one is written.
\<close>

lemma move_piece_frame:
  assumes wf: "wf_board s" and to: "on_board tr tc" and p: "cell s fr fc = Some p"
    and nc: "\<not> (piece_type (heap s p) = KING \<and> \<bar>fc - tc\<bar> = 2)"
    and acc: "move_piece s (fr, fc) (tr, tc) = Some (Inr True, s')"
  shows "cell s' fr fc = None \<and> cell s' tr tc = Some p \<and>
    (\<forall>x y. (x, y) \<noteq> (fr, fc) \<and> (x, y) \<noteq> (tr, tc) \<longrightarrow> cell s' x y = cell s x y) \<and>
    (\<forall>q. q \<noteq> p \<longrightarrow> heap s' q = heap s q)"
proof -
  have ne: "(fr, fc) \<noteq> (tr, tc)" using accepted_distinct [OF wf acc] .
  have s': "s' = switch_turns (pawn_promotion
           (set_has_moved (placed (placed s fr fc None) tr tc (Some p)) p) p tr)"
    using accepted_ordinary [OF wf to p nc acc] .
  have wf1: "wf_board (placed s fr fc None)" using wf by (rule wf_placed)
  have c: "cell s' x y = (if x = tr \<and> y = tc then Some p else if x = fr \<and> y = fc then None else cell s x y)"
    for x y
    unfolding s'
    by (simp add: cell_placed_on_board [OF wf1 to] cell_placed_on_board [OF wf cell_on_board [OF p]])
  have h: "heap s' q = heap s q" if "q \<noteq> p" for q
    unfolding s' using that by (simp add: heap_placed_app)
  show ?thesis using c h ne by auto
qed

section \<open>Castling\<close>

lemma king_castle_valid:
  assumes wf: "wf_board s" and p: "cell s fr fc = Some p" and k: "piece_type (heap s p) = KING"
    and d: "\<bar>fc - tc\<bar> = 2" and v: "is_valid_move s (fr, fc) (tr, tc) = Some (Inr True)"
  shows "tr = fr \<and> \<not> has_moved (heap s p) \<and>
    (\<exists>r. cell s fr (if tc < fc then 0 else 7) = Some r \<and> piece_type (heap s r) = ROOK \<and>
         \<not> has_moved (heap s r))"
  using v d
  by (auto simp: is_valid_move_def get_piece_wf [OF wf] p k validate_king_def Let_def
      split: option.splits if_splits)


text \<open>
  What holds of castling: on every 8 by 8 board, when \<open>move_piece\<close> accepts a move with a
  column difference of 2 of a king standing on column 4, where the two choices of the rook
  agree, the rook on the side toward which the king moves is relocated (from column 0 to
  column 3 for the destination column 2, from column 7 to column 5 for the destination
  column 6), that rook's \<open>has_moved\<close> is true, the king is on the destination square with
  \<open>has_moved\<close> true, and the turn has passed to the other side.
\<close>

lemma castling_relocates_rook:
  assumes wf: "wf_board s" and p: "cell s fr 4 = Some p" and k: "piece_type (heap s p) = KING"
    and d: "\<bar>4 - tc\<bar> = 2" and acc: "move_piece s (fr, 4) (tr, tc) = Some (Inr True, s')"
  shows "\<exists>r. cell s fr (if tc = 2 then 0 else 7) = Some r \<and> piece_type (heap s r) = ROOK \<and>
    cell s' fr (if tc = 2 then 0 else 7) = None \<and>
    cell s' fr (if tc = 2 then 3 else 5) = Some r \<and> has_moved (heap s' r) \<and>
    cell s' tr tc = Some p \<and> cell s' fr 4 = None \<and> has_moved (heap s' p) \<and>
    current_turn s' = other (current_turn s)"
proof -
  have ob: "on_board fr 4" using cell_on_board [OF p] .
  have fr: "0 \<le> fr" "fr < 8" using ob by (auto simp: on_board_def)
  have tc: "tc = 2 \<or> tc = 6" using d by auto
  have v: "is_valid_move s (fr, 4) (tr, tc) = Some (Inr True)"
    using acc by (simp add: move_piece_wf [OF wf] p split: if_splits)
  have tr: "tr = fr" using king_castle_valid [OF wf p k d v] by simp
  obtain r where r: "cell s fr (if tc = 2 then 0 else 7) = Some r" "piece_type (heap s r) = ROOK"
    using king_castle_valid [OF wf p k d v] tc by auto
  define rc :: int where "rc = (if tc = 2 then 0 else 7)"
  define rt :: int where "rt = (if tc = 2 then 3 else 5)"
  define s1 where "s1 = set_has_moved (placed (placed s fr rc None) fr rt (Some r)) r"
  have c: "castling s p fr 4 tc = (Inr (), s1)"
    using r d k by (simp add: castling_wf [OF wf ob] Let_def s1_def rc_def rt_def)
  have obs: "on_board fr rc" "on_board fr rt" "on_board fr tc"
    using fr tc by (auto simp: on_board_def rc_def rt_def)
  have wfa: "wf_board (placed s fr rc None)" using wf by (rule wf_placed)
  have wf1: "wf_board s1" unfolding s1_def using wfa by (simp add: wf_placed)
  have wfb: "wf_board (placed s1 fr 4 None)" using wf1 by (rule wf_placed)
  have e: "execute_move s1 p (fr, 4) (tr, tc) =
      (Inr (), set_has_moved (placed (placed s1 fr 4 None) fr tc (Some p)) p)"
    using execute_move_wf [OF wf1 ob] on_board_indexable [OF obs(3)] tr by simp
  have s': "s' = switch_turns (pawn_promotion
      (set_has_moved (placed (placed s1 fr 4 None) fr tc (Some p)) p) p tr)"
    using acc by (simp add: move_piece_wf [OF wf] p c e split: if_splits)
  have cell1: "cell s1 x y = (if x = fr \<and> y = rt then Some r else if x = fr \<and> y = rc then None else cell s x y)"
    for x y
    unfolding s1_def
    by (simp add: cell_placed_on_board [OF wfa obs(2)] cell_placed_on_board [OF wf obs(1)])
  have cell': "cell s' x y = (if x = fr \<and> y = tc then Some p else if x = fr \<and> y = 4 then None
      else cell s1 x y)" for x y
    unfolding s'
    by (simp add: cell_placed_on_board [OF wfb obs(3)] cell_placed_on_board [OF wf1 ob])
  have hm: "has_moved (heap s' r)" "has_moved (heap s' p)"
    unfolding s' s1_def by (simp_all add: heap_placed_app)
  have turn: "current_turn s' = other (current_turn s)"
    unfolding s' s1_def by (simp add: turn_placed)
  show ?thesis
    using r cell' cell1 hm turn tc tr
    by (auto simp: rc_def rt_def)
qed

section \<open>Destinations off the board\<close>

text \<open>
  Claim C1 says that illegal moves, coordinates off the board and empty from-squares all
  come back as False from \<open>is_valid_move\<close> and \<open>move_piece\<close>, with no exception and no
  partial change of the board. \<open>get_piece\<close> guards its indices; \<open>_validate_knight\<close> looks
  at the differences only and \<open>set_piece\<close> indexes the grid unguarded. In the initial
  position the white knight on (7,6) is offered (6,8): \<open>is_valid_move\<close> returns True, and
  \<open>move_piece\<close> empties (7,6), writes the knight's position and raises IndexError.
\<close>

theorem knight_off_board_raises:
  "is_valid_move init (7, 6) (6, 8) = Some (Inr True) \<and>
   map_option fst (move_piece init (7, 6) (6, 8)) = Some (Inl IndexError) \<and>
   cell init 7 6 = Some 29 \<and>
   cell (the (after (MovePiece (7, 6) (6, 8)) init)) 7 6 = None"
  by code_simp

section \<open>Pawn moves\<close>

lemma is_valid_move_pawn:
  assumes wf: "wf_board s" and p: "cell s fr fc = Some p" and k: "piece_type (heap s p) = PAWN"
  shows "is_valid_move s (fr, fc) (tr, tc) =
    Some (if (case cell s tr tc of None \<Rightarrow> False | Some t \<Rightarrow> color (heap s t) = color (heap s p))
          then Inr False else validate_pawn s (fr, fc) (tr, tc))"
  by (simp add: is_valid_move_def get_piece_wf [OF wf] p k)

lemma validate_pawn_white:
  assumes wf: "wf_board s" and p: "cell s fr fc = Some p" and c: "color (heap s p) = WHITE"
  shows "validate_pawn s (fr, fc) (tr, tc) =
    (if fc = tc \<and> tr = fr - 1 then Inr (cell s tr tc = None)
     else if fc = tc \<and> fr = 6 \<and> tr = 4 then Inr (cell s 5 fc = None \<and> cell s 4 tc = None)
     else if \<bar>tc - fc\<bar> = 1 \<and> tr = fr - 1
     then Inr (case cell s tr tc of None \<Rightarrow> False | Some t \<Rightarrow> color (heap s t) \<noteq> WHITE)
     else Inr False)"
  by (auto simp: validate_pawn_def get_piece_wf [OF wf] p c split: option.splits)

lemma validate_pawn_black:
  assumes wf: "wf_board s" and p: "cell s fr fc = Some p" and c: "color (heap s p) = BLACK"
  shows "validate_pawn s (fr, fc) (tr, tc) =
    (if fc = tc \<and> tr = fr + 1 then Inr (cell s tr tc = None)
     else if fc = tc \<and> fr = 1 \<and> tr = 3 then Inr (cell s 2 fc = None \<and> cell s 3 tc = None)
     else if \<bar>tc - fc\<bar> = 1 \<and> tr = fr + 1
     then Inr (case cell s tr tc of None \<Rightarrow> False | Some t \<Rightarrow> color (heap s t) \<noteq> BLACK)
     else Inr False)"
  by (auto simp: validate_pawn_def get_piece_wf [OF wf] p c split: option.splits)

text \<open>
  Claim C5. On every 8 by 8 board, for squares of the board where the from-square holds a
  pawn of the side to move, \<open>is_valid_move\<close> returns exactly the pawn rule of the
  specification (\<open>pawn_rule\<close>: one step forward on the column to an empty square; two steps
  forward on the column from the starting rank, row 6 for White and row 1 for Black, with
  the intermediate and the destination squares empty; one step diagonally forward onto a
  square held by an opposing piece). In particular the move of a white pawn from (6,4) to
  (4,4) is legal exactly when (5,4) and (4,4) are both empty.
\<close>

theorem pawn_rule_refines:
  assumes wf: "wf_board s" and t: "on_board tr tc"
    and p: "cell s fr fc = Some p" and k: "piece_type (heap s p) = PAWN"
    and turn: "color (heap s p) = current_turn s"
  shows "is_valid_move s (fr, fc) (tr, tc) =
      Some (Inr (pawn_rule s (current_turn s) (fr, fc) (tr, tc))) \<and>
    ((fr, fc) = (6, 4) \<and> (tr, tc) = (4, 4) \<and> current_turn s = WHITE \<longrightarrow>
      is_valid_move s (fr, fc) (tr, tc) = Some (Inr (cell s 5 4 = None \<and> cell s 4 4 = None)))"
proof -
  have 1: "is_valid_move s (fr, fc) (tr, tc) =
      Some (Inr (pawn_rule s (current_turn s) (fr, fc) (tr, tc)))"
  proof (cases "current_turn s")
    case WHITE
    then have c: "color (heap s p) = WHITE" using turn by simp
    show ?thesis
      using WHITE c
      by (auto simp: is_valid_move_pawn [OF wf p k] validate_pawn_white [OF wf p c] pawn_rule_def
          split: option.splits)
  next
    case BLACK
    then have c: "color (heap s p) = BLACK" using turn by simp
    show ?thesis
      using BLACK c
      by (auto simp: is_valid_move_pawn [OF wf p k] validate_pawn_black [OF wf p c] pawn_rule_def
          split: option.splits)
  qed
  have 2: "pawn_rule s WHITE (6, 4) (4, 4) = (cell s 5 4 = None \<and> cell s 4 4 = None)"
    by (auto simp: pawn_rule_def)
  show ?thesis using 1 2 by auto
qed

text \<open>The white king's pawn of the initial position, from (6,4) to (4,4).\<close>

theorem pawn_rule_refines_witness:
  "wf_board init \<and> on_board 4 4 \<and> cell init 6 4 = Some 9 \<and> piece_type (heap init 9) = PAWN \<and>
   color (heap init 9) = current_turn init \<and> current_turn init = WHITE \<and>
   cell init 5 4 = None \<and> cell init 4 4 = None \<and>
   is_valid_move init (6, 4) (4, 4) = Some (Inr True)"
proof -
  have wf: "wf_board init" by code_simp
  have t: "on_board 4 4" by code_simp
  have p: "cell init 6 4 = Some 9" by code_simp
  have k: "piece_type (heap init 9) = PAWN" by code_simp
  have turn: "color (heap init 9) = current_turn init" by code_simp
  have w: "current_turn init = WHITE" by code_simp
  have e: "cell init 5 4 = None" "cell init 4 4 = None" by code_simp+
  show ?thesis
    using pawn_rule_refines [OF wf t p k turn] wf t p k turn w e by auto
qed

section \<open>Promotion\<close>

lemma placed_fields [simp]:
  "piece_type (heap (placed s row col v) q) = piece_type (heap s q)"
  "color (heap (placed s row col v) q) = color (heap s q)"
  "has_moved (heap (placed s row col v) q) = has_moved (heap s q)"
  by (simp_all add: heap_placed_app)

lemma accepted_parts:
  assumes wf: "wf_board s" and acc: "move_piece s (fr, fc) (tr, tc) = Some (Inr True, s')"
  obtains p s1 s2 where "cell s fr fc = Some p" "color (heap s p) = current_turn s"
    "is_valid_move s (fr, fc) (tr, tc) = Some (Inr True)"
    "castling s p fr fc tc = (Inr (), s1)"
    "execute_move s1 p (fr, fc) (tr, tc) = (Inr (), s2)"
    "s' = switch_turns (pawn_promotion s2 p tr)"
proof -
  obtain p where p: "cell s fr fc = Some p"
    using acc by (cases "cell s fr fc") (auto simp: move_piece_wf [OF wf])
  have c: "color (heap s p) = current_turn s"
    and v: "is_valid_move s (fr, fc) (tr, tc) = Some (Inr True)"
    using acc by (auto simp: move_piece_wf [OF wf] p split: if_splits)
  have r: "seq (castling s p fr fc tc) (\<lambda>_ s1.
             seq (execute_move s1 p (fr, fc) (tr, tc)) (\<lambda>_ s2.
               (Inr True, switch_turns (pawn_promotion s2 p tr)))) = (Inr True, s')"
    using acc by (simp add: move_piece_wf [OF wf] p c v)
  obtain a s1 where m1: "castling s p fr fc tc = (a, s1)" by (cases "castling s p fr fc tc")
  obtain u1 where a: "a = Inr u1" using r m1 by (cases a) auto
  obtain b s2 where m2: "execute_move s1 p (fr, fc) (tr, tc) = (b, s2)"
    by (cases "execute_move s1 p (fr, fc) (tr, tc)")
  obtain u2 where b: "b = Inr u2" using r m1 a m2 by (cases b) auto
  have "s' = switch_turns (pawn_promotion s2 p tr)" using r m1 a m2 b by simp
  then show ?thesis using that p c v m1 a m2 b by simp
qed

lemma pawn_valid_dest:
  assumes wf: "wf_board s" and p: "cell s fr fc = Some p" and k: "piece_type (heap s p) = PAWN"
    and v: "is_valid_move s (fr, fc) (tr, tc) = Some (Inr True)"
  shows "(tc = fc \<or> cell s tr tc \<noteq> None) \<and>
         (tr = fr - 1 \<or> tr = fr + 1 \<or> (fr = 6 \<and> tr = 4) \<or> (fr = 1 \<and> tr = 3))"
proof (cases "color (heap s p)")
  case WHITE
  show ?thesis
    using v unfolding is_valid_move_pawn [OF wf p k] validate_pawn_white [OF wf p WHITE]
    by (auto split: if_splits option.splits)
next
  case BLACK
  show ?thesis
    using v unfolding is_valid_move_pawn [OF wf p k] validate_pawn_black [OF wf p BLACK]
    by (auto split: if_splits option.splits)
qed

lemma pawn_dest_on_board:
  assumes wf: "wf_board s" and p: "cell s fr fc = Some p" and k: "piece_type (heap s p) = PAWN"
    and v: "is_valid_move s (fr, fc) (tr, tc) = Some (Inr True)"
    and r: "0 \<le> tr" "tr < 8"
  shows "on_board tr tc"
proof (cases "tc = fc")
  case True
  then show ?thesis using cell_on_board [OF p] r by (simp add: on_board_def)
next
  case False
  then obtain q where "cell s tr tc = Some q" using pawn_valid_dest [OF wf p k v] by auto
  then show ?thesis by (rule cell_on_board)
qed

lemma pawn_promoted:
  assumes wf: "wf_board s" and p: "cell s fr fc = Some p" and k: "piece_type (heap s p) = PAWN"
    and tr: "tr = 0 \<or> tr = 7"
    and acc: "move_piece s (fr, fc) (tr, tc) = Some (Inr True, s')"
  shows "cell s' tr tc = Some p \<and> piece_type (heap s' p) = QUEEN"
proof -
  have v: "is_valid_move s (fr, fc) (tr, tc) = Some (Inr True)"
    using acc by (simp add: move_piece_wf [OF wf] p split: if_splits)
  have to: "on_board tr tc" using pawn_dest_on_board [OF wf p k v] tr by auto
  have nc: "\<not> (piece_type (heap s p) = KING \<and> \<bar>fc - tc\<bar> = 2)" using k by simp
  have s': "s' = switch_turns (pawn_promotion
           (set_has_moved (placed (placed s fr fc None) tr tc (Some p)) p) p tr)"
    using accepted_ordinary [OF wf to p nc acc] .
  have wf1: "wf_board (placed s fr fc None)" using wf by (rule wf_placed)
  show ?thesis
    unfolding s' using tr k by (auto simp: cell_placed_on_board [OF wf1 to])
qed

lemma castling_keeps_rows:
  assumes wf: "wf_board s" and ob: "on_board fr fc"
    and c: "castling s p fr fc tc = (Inr (), s1)"
  shows "wf_board s1"
    and "piece_type (heap s1 q) = piece_type (heap s q)"
    and "cell s1 x y = Some q \<Longrightarrow> \<exists>y'. cell s x y' = Some q"
proof -
  define rc :: int where "rc = (if tc = 2 then 0 else 7)"
  define rt :: int where "rt = (if tc = 2 then 3 else 5)"
  have fr: "0 \<le> fr" "fr < 8" using ob by (auto simp: on_board_def)
  have obs: "on_board fr rc" "on_board fr rt"
    using fr by (auto simp: on_board_def rc_def rt_def)
  have wfa: "wf_board (placed s fr rc None)" using wf by (rule wf_placed)
  have "s1 = s \<or> (\<exists>r. cell s fr rc = Some r \<and>
        s1 = set_has_moved (placed (placed s fr rc None) fr rt (Some r)) r)"
  proof (cases "piece_type (heap s p) = KING \<and> \<bar>fc - tc\<bar> = 2")
    case False
    then show ?thesis using c by (auto simp: castling_def)
  next
    case True
    show ?thesis
    proof (cases "cell s fr rc")
      case None
      then show ?thesis
        using c True unfolding castling_wf [OF wf ob] by (simp add: Let_def rc_def rt_def)
    next
      case (Some r)
      then show ?thesis
        using c True unfolding castling_wf [OF wf ob] by (simp add: Let_def rc_def rt_def)
    qed
  qed
  then consider (plain) "s1 = s"
    | (castle) r where "cell s fr rc = Some r"
        "s1 = set_has_moved (placed (placed s fr rc None) fr rt (Some r)) r"
    by blast
  then have "wf_board s1 \<and> piece_type (heap s1 q) = piece_type (heap s q) \<and>
      (cell s1 x y = Some q \<longrightarrow> (\<exists>y'. cell s x y' = Some q))"
  proof cases
    case plain
    then show ?thesis using wf by auto
  next
    case castle
    have cell1: "cell s1 x y =
        (if x = fr \<and> y = rt then Some r else if x = fr \<and> y = rc then None else cell s x y)"
      unfolding castle(2)
      by (simp add: cell_placed_on_board [OF wfa obs(2)] cell_placed_on_board [OF wf obs(1)])
    have "wf_board s1" unfolding castle(2) using wfa by (simp add: wf_placed)
    moreover have "piece_type (heap s1 q) = piece_type (heap s q)"
      unfolding castle(2) by simp
    moreover have "cell s1 x y = Some q \<longrightarrow> (\<exists>y'. cell s x y' = Some q)"
      using cell1 castle(1) by (auto split: if_splits)
    ultimately show ?thesis by blast
  qed
  then show "wf_board s1" "piece_type (heap s1 q) = piece_type (heap s q)"
    "cell s1 x y = Some q \<Longrightarrow> \<exists>y'. cell s x y' = Some q" by blast+
qed

lemma accepted_keeps_pawns_inside:
  assumes wf: "wf_board s"
    and inv: "\<And>x y q. cell s x y = Some q \<Longrightarrow> piece_type (heap s q) = PAWN \<Longrightarrow> 1 \<le> x \<and> x \<le> 6"
    and acc: "move_piece s (fr, fc) (tr, tc) = Some (Inr True, s')"
  shows "wf_board s' \<and>
    (\<forall>x y q. cell s' x y = Some q \<longrightarrow> piece_type (heap s' q) = PAWN \<longrightarrow> 1 \<le> x \<and> x \<le> 6)"
proof -
  obtain p s1 s2 where p: "cell s fr fc = Some p"
    and v: "is_valid_move s (fr, fc) (tr, tc) = Some (Inr True)"
    and c: "castling s p fr fc tc = (Inr (), s1)"
    and e: "execute_move s1 p (fr, fc) (tr, tc) = (Inr (), s2)"
    and s': "s' = switch_turns (pawn_promotion s2 p tr)"
    using accepted_parts [OF wf acc] by blast
  have ob: "on_board fr fc" using p by (rule cell_on_board)
  have wf1: "wf_board s1" using castling_keeps_rows(1) [OF wf ob c] .
  have ty1: "piece_type (heap s1 q) = piece_type (heap s q)" for q
    using castling_keeps_rows(2) [OF wf ob c] .
  have inv1: "1 \<le> x \<and> x \<le> 6"
    if a1: "cell s1 x y = Some q" and b1: "piece_type (heap s1 q) = PAWN" for x y q
  proof -
    obtain y' where "cell s x y' = Some q" using castling_keeps_rows(3) [OF wf ob c a1] by blast
    then show ?thesis using inv b1 ty1 by auto
  qed
  have ix: "indexable tr \<and> indexable tc"
    using e unfolding execute_move_wf [OF wf1 ob] by (auto split: if_splits)
  have s2: "s2 = set_has_moved (placed (placed s1 fr fc None) tr tc (Some p)) p"
    using e ix unfolding execute_move_wf [OF wf1 ob] by simp
  have wfa: "wf_board (placed s1 fr fc None)" using wf1 by (rule wf_placed)
  have wf': "wf_board s'" unfolding s' s2 using wfa by (simp add: wf_placed)
  have cell': "cell s' x y = (if x = wrap tr \<and> y = wrap tc then Some p
      else if x = fr \<and> y = fc then None else cell s1 x y)" for x y
    unfolding s' s2 using ix
    by (simp add: cell_placed [OF wfa] cell_placed_on_board [OF wf1 ob])
  have ty': "piece_type (heap s' q) = PAWN \<Longrightarrow>
      piece_type (heap s q) = PAWN \<and> (q = p \<longrightarrow> tr \<noteq> 0 \<and> tr \<noteq> 7)" for q
    unfolding s' s2 using ty1 by (auto split: if_splits)
  have "1 \<le> x \<and> x \<le> 6" if a: "cell s' x y = Some q" and b: "piece_type (heap s' q) = PAWN" for x y q
  proof (cases "x = wrap tr \<and> y = wrap tc")
    case True
    then have q: "q = p" using a cell' by simp
    have k: "piece_type (heap s p) = PAWN" and edge: "tr \<noteq> 0" "tr \<noteq> 7"
      using ty' [OF b] q by auto
    have "1 \<le> fr \<and> fr \<le> 6" using inv [OF p k] .
    then have "1 \<le> tr \<and> tr \<le> 6" using pawn_valid_dest [OF wf p k v] edge by auto
    then show ?thesis using True by (simp add: wrap_def)
  next
    case False
    then have "cell s1 x y = Some q" using a cell' by (auto split: if_splits)
    then show ?thesis using inv1 ty' [OF b] ty1 by auto
  qed
  then show ?thesis using wf' by blast
qed

lemma wf_init: "wf_board init"
  by code_simp

lemma init_edges:
  "list_all (\<lambda>c. case cell init 0 c of None \<Rightarrow> True | Some q \<Rightarrow> piece_type (heap init q) \<noteq> PAWN) [0..7]"
  "list_all (\<lambda>c. case cell init 7 c of None \<Rightarrow> True | Some q \<Rightarrow> piece_type (heap init q) \<noteq> PAWN) [0..7]"
  by code_simp+

lemma init_pawns_inside:
  assumes "cell init x y = Some q" "piece_type (heap init q) = PAWN"
  shows "1 \<le> x \<and> x \<le> 6"
proof -
  have ob: "on_board x y" using assms(1) by (rule cell_on_board)
  then have y: "y \<in> set [0..7]" by (auto simp: on_board_def)
  have "x \<noteq> 0" "x \<noteq> 7"
    using init_edges y assms by (auto simp: list_all_iff split: option.splits)
  then show ?thesis using ob by (auto simp: on_board_def)
qed

lemma reachable_pawns_inside:
  "reachable s \<Longrightarrow> wf_board s \<and>
    (\<forall>x y q. cell s x y = Some q \<longrightarrow> piece_type (heap s q) = PAWN \<longrightarrow> 1 \<le> x \<and> x \<le> 6)"
proof (induction rule: reachable.induct)
  case start
  then show ?case using wf_init init_pawns_inside by blast
next
  case (step s from_pos to_pos s')
  obtain fr fc tr tc where ft: "from_pos = (fr, fc)" "to_pos = (tr, tc)"
    by (cases from_pos; cases to_pos) blast
  show ?case
    using accepted_keeps_pawns_inside [of s fr fc tr tc s'] step ft by blast
qed

text \<open>
  Claim C6. On every 8 by 8 board, when \<open>move_piece\<close> accepts the move of a pawn to its
  farthest rank (row 0 for a white pawn, row 7 for a black pawn), the destination square
  holds that piece and its kind is Queen. Consequently, in every state reached from the
  initial position by accepted moves, no pawn stands on row 0 or on row 7.
\<close>

theorem promotion_to_queen:
  "(wf_board s \<and> cell s fr fc = Some p \<and> piece_type (heap s p) = PAWN \<and>
    tr = (if color (heap s p) = WHITE then 0 else 7) \<and>
    move_piece s (fr, fc) (tr, tc) = Some (Inr True, s')
    \<longrightarrow> cell s' tr tc = Some p \<and> piece_type (heap s' p) = QUEEN) \<and>
   (reachable u \<and> cell u x y = Some q \<and> piece_type (heap u q) = PAWN \<longrightarrow> x \<noteq> 0 \<and> x \<noteq> 7)"
proof (intro conjI impI)
  assume a: "wf_board s \<and> cell s fr fc = Some p \<and> piece_type (heap s p) = PAWN \<and>
    tr = (if color (heap s p) = WHITE then 0 else 7) \<and>
    move_piece s (fr, fc) (tr, tc) = Some (Inr True, s')"
  then have tr: "tr = 0 \<or> tr = 7" by auto
  have "cell s' tr tc = Some p \<and> piece_type (heap s' p) = QUEEN"
    using a pawn_promoted [OF _ _ _ tr, of s fr fc p tc s'] by blast
  then show "cell s' tr tc = Some p" "piece_type (heap s' p) = QUEEN" by blast+
next
  assume b: "reachable u \<and> cell u x y = Some q \<and> piece_type (heap u q) = PAWN"
  then have "1 \<le> x \<and> x \<le> 6" using reachable_pawns_inside [of u] by blast
  then show "x \<noteq> 0" "x \<noteq> 7" by auto
qed

text \<open>
  The white pawn on (1,0) of the promotion position moves to (0,0); after 1. e4 from the
  initial position the pawn stands on (4,4).
\<close>

theorem promotion_to_queen_witness:
  "wf_board promotion_position \<and> cell promotion_position 1 0 = Some 0 \<and>
   piece_type (heap promotion_position 0) = PAWN \<and>
   (0 :: int) = (if color (heap promotion_position 0) = WHITE then 0 else 7) \<and>
   move_piece promotion_position (1, 0) (0, 0) =
     Some (Inr True, the (after (MovePiece (1, 0) (0, 0)) promotion_position)) \<and>
   cell (the (after (MovePiece (1, 0) (0, 0)) promotion_position)) 0 0 = Some 0 \<and>
   piece_type (heap (the (after (MovePiece (1, 0) (0, 0)) promotion_position)) 0) = QUEEN \<and>
   reachable (the (after (MovePiece (6, 4) (4, 4)) init)) \<and>
   cell (the (after (MovePiece (6, 4) (4, 4)) init)) 4 4 = Some 9 \<and>
   piece_type (heap (the (after (MovePiece (6, 4) (4, 4)) init)) 9) = PAWN \<and>
   (4 :: int) \<noteq> 0 \<and> (4 :: int) \<noteq> 7"
proof -
  have p: "cell promotion_position 1 0 = Some 0" by code_simp
  have k: "piece_type (heap promotion_position 0) = PAWN" by code_simp
  have tr: "(0 :: int) = (if color (heap promotion_position 0) = WHITE then 0 else 7)" by code_simp
  have "map_option fst (move_piece promotion_position (1, 0) (0, 0)) = Some (Inr True)"
    by code_simp
  then have acc: "move_piece promotion_position (1, 0) (0, 0) =
      Some (Inr True, the (after (MovePiece (1, 0) (0, 0)) promotion_position))"
    by (rule accepted_the)
  have "map_option fst (move_piece init (6, 4) (4, 4)) = Some (Inr True)"
    by code_simp
  then have "move_piece init (6, 4) (4, 4) =
      Some (Inr True, the (after (MovePiece (6, 4) (4, 4)) init))"
    by (rule accepted_the)
  then have r: "reachable (the (after (MovePiece (6, 4) (4, 4)) init))"
    using reachable.step [OF reachable.start] by blast
  have c: "cell (the (after (MovePiece (6, 4) (4, 4)) init)) 4 4 = Some 9" by code_simp
  have t: "piece_type (heap (the (after (MovePiece (6, 4) (4, 4)) init)) 9) = PAWN" by code_simp
  show ?thesis
    using promotion_to_queen [where s = promotion_position and fr = 1 and fc = 0 and p = 0
        and tr = 0 and tc = 0 and s' = "the (after (MovePiece (1, 0) (0, 0)) promotion_position)"
        and u = "the (after (MovePiece (6, 4) (4, 4)) init)" and x = 4 and y = 4 and q = 9]
      wf_promotion_position p k tr acc r c t
    by blast
qed

section \<open>has\_moved is never reset\<close>

lemma snd_seq:
  "snd (seq m f) = (case m of (Inl e, s) \<Rightarrow> s | (Inr x, s) \<Rightarrow> snd (f x s))"
  by (auto simp: seq_def split: prod.splits sum.splits)

lemma castling_moved:
  assumes wf: "wf_board s" and ob: "on_board fr fc"
  shows "wf_board (snd (castling s p fr fc tc)) \<and>
    (has_moved (heap s q) \<longrightarrow> has_moved (heap (snd (castling s p fr fc tc)) q))"
  unfolding castling_wf [OF wf ob]
  by (auto simp: Let_def wf wf_placed [OF wf_placed [OF wf]] split: option.splits)

lemma execute_move_moved:
  assumes wf: "wf_board s" and ob: "on_board fr fc"
  shows "wf_board (snd (execute_move s p (fr, fc) (tr, tc))) \<and>
    (has_moved (heap s q) \<longrightarrow> has_moved (heap (snd (execute_move s p (fr, fc) (tr, tc))) q))"
  unfolding execute_move_wf [OF wf ob]
  by (auto simp: wf wf_placed [OF wf_placed [OF wf]])

lemma move_piece_moved:
  assumes wf: "wf_board s"
  shows "\<exists>r s'. move_piece s f t = Some (r, s') \<and> wf_board s' \<and>
    (\<forall>q. has_moved (heap s q) \<longrightarrow> has_moved (heap s' q))"
proof -
  obtain fr fc tr tc where ft: "f = (fr, fc)" "t = (tr, tc)"
    by (cases f; cases t) blast
  show ?thesis
  proof (cases "\<exists>p. cell s fr fc = Some p \<and> color (heap s p) = current_turn s \<and>
      is_valid_move s (fr, fc) (tr, tc) = Some (Inr True)")
    case False
    then have "move_piece s f t = Some (Inr False, s)"
      unfolding ft move_piece_wf [OF wf] by (auto split: option.splits)
    then show ?thesis using wf by auto
  next
    case True
    then obtain p where p: "cell s fr fc = Some p" "color (heap s p) = current_turn s"
      "is_valid_move s (fr, fc) (tr, tc) = Some (Inr True)" by blast
    have ob: "on_board fr fc" using p(1) by (rule cell_on_board)
    define m1 where "m1 = castling s p fr fc tc"
    define res where "res = seq m1 (\<lambda>_ s1.
        seq (execute_move s1 p (fr, fc) (tr, tc)) (\<lambda>_ s2.
          (Inr True, switch_turns (pawn_promotion s2 p tr))))"
    have mp: "move_piece s f t = Some res"
      unfolding ft move_piece_wf [OF wf] res_def m1_def using p by simp
    have c: "wf_board (snd m1)" "\<And>q. has_moved (heap s q) \<Longrightarrow> has_moved (heap (snd m1) q)"
      using castling_moved [OF wf ob, of p tc] unfolding m1_def by blast+
    have "wf_board (snd res) \<and> (\<forall>q. has_moved (heap s q) \<longrightarrow> has_moved (heap (snd res) q))"
    proof (cases m1)
      case (Pair a s1)
      then have s1: "wf_board s1" "\<And>q. has_moved (heap s q) \<Longrightarrow> has_moved (heap s1 q)"
        using c by auto
      show ?thesis
      proof (cases a)
        case (Inl e)
        then show ?thesis using Pair s1 by (simp add: res_def)
      next
        case (Inr u)
        define m2 where "m2 = execute_move s1 p (fr, fc) (tr, tc)"
        have e: "wf_board (snd m2)" "\<And>q. has_moved (heap s1 q) \<Longrightarrow> has_moved (heap (snd m2) q)"
          using execute_move_moved [OF s1(1) ob, of p tr tc] unfolding m2_def by blast+
        obtain b s2 where m2: "m2 = (b, s2)" by (cases m2)
        have s2: "wf_board s2" "\<And>q. has_moved (heap s q) \<Longrightarrow> has_moved (heap s2 q)"
          using e s1(2) m2 by auto
        have r: "res = seq m2 (\<lambda>_ s2. (Inr True, switch_turns (pawn_promotion s2 p tr)))"
          unfolding res_def Pair Inr m2_def by simp
        show ?thesis
        proof (cases b)
          case (Inl e)
          then show ?thesis using r m2 s2 by simp
        next
          case (Inr u2)
          then show ?thesis using r m2 s2 by simp
        qed
      qed
    qed
    then show ?thesis using mp by (cases res) auto
  qed
qed

lemma after_moved:
  assumes wf: "wf_board s"
  shows "\<exists>s'. after x s = Some s' \<and> wf_board s' \<and>
    (\<forall>q. has_moved (heap s q) \<longrightarrow> has_moved (heap s' q))"
proof (cases x)
  case (GetPiece r c)
  then show ?thesis using wf by (simp add: get_piece_st_eq)
next
  case (IsValidMove f t)
  then show ?thesis using wf is_valid_move_st_agrees [OF wf, of f t] by auto
next
  case (MovePiece f t)
  then show ?thesis using move_piece_moved [OF wf, of f t] by auto
qed

lemma run_moved:
  "wf_board s \<Longrightarrow> \<exists>s'. run ops s = Some s' \<and> wf_board s' \<and>
    (\<forall>q. has_moved (heap s q) \<longrightarrow> has_moved (heap s' q))"
proof (induction ops arbitrary: s)
  case Nil
  then show ?case by simp
next
  case (Cons x xs)
  obtain s1 where s1: "after x s = Some s1" "wf_board s1"
    "\<forall>q. has_moved (heap s q) \<longrightarrow> has_moved (heap s1 q)"
    using after_moved [OF Cons.prems] by blast
  obtain s2 where s2: "run xs s1 = Some s2" "wf_board s2"
    "\<forall>q. has_moved (heap s1 q) \<longrightarrow> has_moved (heap s2 q)"
    using Cons.IH [OF s1(2)] by blast
  show ?case using s1 s2 by auto
qed

text \<open>
  Claim C8. The \<open>has_moved\<close> flag of every piece is monotone: from every 8 by 8 board,
  every sequence of engine operations (\<open>get_piece\<close>, \<open>is_valid_move\<close>, \<open>move_piece\<close>, whatever
  each returns or raises) runs to an end, and every piece object whose \<open>has_moved\<close> was true
  before the sequence has it true after it.
\<close>

theorem has_moved_monotone:
  assumes "wf_board s"
  shows "\<exists>s'. run ops s = Some s' \<and> (\<forall>q. has_moved (heap s q) \<longrightarrow> has_moved (heap s' q))"
  using run_moved [OF assms, of ops] by blast

text \<open>
  In the promotion position the white king (piece 1) has moved; it still has after a
  promotion, a query, a black king move and a rejected move.
\<close>

theorem has_moved_monotone_witness:
  "wf_board promotion_position \<and> has_moved (heap promotion_position 1) \<and>
   (\<exists>s'. run [MovePiece (1, 0) (0, 0), IsValidMove (0, 4) (1, 4), GetPiece 0 0,
              MovePiece (0, 4) (1, 4), MovePiece (7, 4) (9, 4)] promotion_position = Some s' \<and>
         has_moved (heap s' 1))"
proof -
  have h: "has_moved (heap promotion_position 1)" by code_simp
  show ?thesis
    using has_moved_monotone [OF wf_promotion_position,
        of "[MovePiece (1, 0) (0, 0), IsValidMove (0, 4) (1, 4), GetPiece 0 0,
             MovePiece (0, 4) (1, 4), MovePiece (7, 4) (9, 4)]"]
      wf_promotion_position h
    by blast
qed

section \<open>Checkmate\<close>

text \<open>
  Claim C2. \<open>isCheckmate side\<close> is true exactly when \<open>isInCheck side\<close> is true and
  \<open>allLegalMoves side\<close> is empty; and in the position with the black king alone in the
  corner (0,0), mated by the white queen on (1,1) and the white king on (2,2),
  \<open>isCheckmate BLACK\<close> is true and \<open>allLegalMoves BLACK\<close> is empty. The three queries are
  the ones modelled from the specification; the moves they enumerate and apply are those of
  \<open>is_valid_move\<close> and \<open>move_piece\<close>.
\<close>

theorem checkmate_iff:
  "(isCheckmate s side \<longleftrightarrow> isInCheck s side \<and> allLegalMoves s side = []) \<and>
   isCheckmate mate_position BLACK \<and> allLegalMoves mate_position BLACK = []"
proof -
  have a: "isCheckmate s side \<longleftrightarrow> isInCheck s side \<and> allLegalMoves s side = []"
    by (simp add: isCheckmate_def)
  have b: "isCheckmate mate_position BLACK" by code_simp
  have c: "allLegalMoves mate_position BLACK = []" by code_simp
  show ?thesis using a b c by blast
qed

theorem checkmate_iff_witness:
  "isInCheck mate_position BLACK \<and> allLegalMoves mate_position BLACK = [] \<and>
   isCheckmate mate_position BLACK"
  using checkmate_iff [of mate_position BLACK] by blast

section \<open>Unmoved kings stand on column 4\<close>

text \<open>
  In every state reached from the initial position by accepted moves a king whose
  \<open>has_moved\<close> is false stands on column 4: every piece that a move puts on a square has
  \<open>has_moved\<close> true afterwards. So an accepted king move with a column difference of 2
  starts on column 4 there, and castling relocates the rook on the side toward which the
  king moves in every such state (\<open>reachable_castling_relocates_rook\<close>).
\<close>

lemma castling_marks_rook:
  assumes wf: "wf_board s" and ob: "on_board fr fc"
    and c: "castling s p fr fc tc = (Inr (), s1)"
  shows "has_moved (heap s q) \<Longrightarrow> has_moved (heap s1 q)"
    and "cell s1 x y = Some q \<Longrightarrow> cell s x y = Some q \<or> has_moved (heap s1 q)"
proof -
  define rc :: int where "rc = (if tc = 2 then 0 else 7)"
  define rt :: int where "rt = (if tc = 2 then 3 else 5)"
  have fr: "0 \<le> fr" "fr < 8" using ob by (auto simp: on_board_def)
  have obs: "on_board fr rc" "on_board fr rt"
    using fr by (auto simp: on_board_def rc_def rt_def)
  have wfa: "wf_board (placed s fr rc None)" using wf by (rule wf_placed)
  have "s1 = s \<or> (\<exists>r. s1 = set_has_moved (placed (placed s fr rc None) fr rt (Some r)) r)"
  proof (cases "piece_type (heap s p) = KING \<and> \<bar>fc - tc\<bar> = 2")
    case False
    then show ?thesis using c by (auto simp: castling_def)
  next
    case True
    show ?thesis
    proof (cases "cell s fr rc")
      case None
      then show ?thesis
        using c True unfolding castling_wf [OF wf ob] by (simp add: Let_def rc_def rt_def)
    next
      case (Some r)
      then show ?thesis
        using c True unfolding castling_wf [OF wf ob] by (auto simp: Let_def rc_def rt_def)
    qed
  qed
  then consider (plain) "s1 = s"
    | (castle) r where "s1 = set_has_moved (placed (placed s fr rc None) fr rt (Some r)) r"
    by blast
  then have "(has_moved (heap s q) \<longrightarrow> has_moved (heap s1 q)) \<and>
      (cell s1 x y = Some q \<longrightarrow> cell s x y = Some q \<or> has_moved (heap s1 q))"
  proof cases
    case plain
    then show ?thesis by simp
  next
    case castle
    have cell1: "cell s1 x y =
        (if x = fr \<and> y = rt then Some r else if x = fr \<and> y = rc then None else cell s x y)"
      unfolding castle
      by (simp add: cell_placed_on_board [OF wfa obs(2)] cell_placed_on_board [OF wf obs(1)])
    have "has_moved (heap s1 r)" unfolding castle by simp
    moreover have "has_moved (heap s q) \<longrightarrow> has_moved (heap s1 q)" unfolding castle by simp
    ultimately show ?thesis using cell1 by (auto split: if_splits)
  qed
  then show "has_moved (heap s q) \<Longrightarrow> has_moved (heap s1 q)"
    "cell s1 x y = Some q \<Longrightarrow> cell s x y = Some q \<or> has_moved (heap s1 q)" by blast+
qed

lemma accepted_keeps_unmoved_kings_home:
  assumes wf: "wf_board s"
    and inv: "\<And>x y q. cell s x y = Some q \<Longrightarrow> piece_type (heap s q) = KING \<Longrightarrow>
        \<not> has_moved (heap s q) \<Longrightarrow> y = 4"
    and acc: "move_piece s (fr, fc) (tr, tc) = Some (Inr True, s')"
  shows "\<forall>x y q. cell s' x y = Some q \<longrightarrow> piece_type (heap s' q) = KING \<longrightarrow>
      \<not> has_moved (heap s' q) \<longrightarrow> y = 4"
proof -
  obtain p s1 s2 where p: "cell s fr fc = Some p"
    and c: "castling s p fr fc tc = (Inr (), s1)"
    and e: "execute_move s1 p (fr, fc) (tr, tc) = (Inr (), s2)"
    and s': "s' = switch_turns (pawn_promotion s2 p tr)"
    using accepted_parts [OF wf acc] by blast
  have ob: "on_board fr fc" using p by (rule cell_on_board)
  have wf1: "wf_board s1" using castling_keeps_rows(1) [OF wf ob c] .
  have ty1: "piece_type (heap s1 q) = piece_type (heap s q)" for q
    using castling_keeps_rows(2) [OF wf ob c] .
  have ix: "indexable tr \<and> indexable tc"
    using e unfolding execute_move_wf [OF wf1 ob] by (auto split: if_splits)
  have s2: "s2 = set_has_moved (placed (placed s1 fr fc None) tr tc (Some p)) p"
    using e ix unfolding execute_move_wf [OF wf1 ob] by simp
  have wfa: "wf_board (placed s1 fr fc None)" using wf1 by (rule wf_placed)
  have cell': "cell s' x y = (if x = wrap tr \<and> y = wrap tc then Some p
      else if x = fr \<and> y = fc then None else cell s1 x y)" for x y
    unfolding s' s2 using ix
    by (simp add: cell_placed [OF wfa] cell_placed_on_board [OF wf1 ob])
  have hp: "has_moved (heap s' p)" unfolding s' s2 by simp
  have hm': "has_moved (heap s1 q) \<Longrightarrow> has_moved (heap s' q)" for q
    unfolding s' s2 by simp
  have ty': "piece_type (heap s' q) = KING \<Longrightarrow> piece_type (heap s q) = KING" for q
    unfolding s' s2 using ty1 by (auto split: if_splits)
  have "y = 4" if a: "cell s' x y = Some q" and k: "piece_type (heap s' q) = KING"
    and u: "\<not> has_moved (heap s' q)" for x y q
  proof -
    have "q \<noteq> p" using hp u by auto
    then have c1: "cell s1 x y = Some q" using a cell' by (auto split: if_splits)
    have u1: "\<not> has_moved (heap s1 q)" using u hm' by blast
    then have "cell s x y = Some q" using castling_marks_rook(2) [OF wf ob c c1] by blast
    moreover have "\<not> has_moved (heap s q)" using u1 castling_marks_rook(1) [OF wf ob c] by blast
    ultimately show ?thesis using inv ty' [OF k] by blast
  qed
  then show ?thesis by blast
qed

lemma init_kings:
  "list_all (\<lambda>(x, y). case cell init x y of None \<Rightarrow> True
     | Some q \<Rightarrow> piece_type (heap init q) = KING \<longrightarrow> y = 4) squares"
  by code_simp

lemma on_board_squares: "on_board x y \<Longrightarrow> (x, y) \<in> set squares"
  by (force simp: on_board_def squares_def)

lemma reachable_unmoved_king_home:
  "reachable s \<Longrightarrow> wf_board s \<and>
    (\<forall>x y q. cell s x y = Some q \<longrightarrow> piece_type (heap s q) = KING \<longrightarrow>
       \<not> has_moved (heap s q) \<longrightarrow> y = 4)"
proof (induction rule: reachable.induct)
  case start
  have "y = 4" if a: "cell init x y = Some q" and k: "piece_type (heap init q) = KING" for x y q
  proof -
    have "(x, y) \<in> set squares" using cell_on_board [OF a] by (rule on_board_squares)
    then show ?thesis using init_kings a k by (auto simp: list_all_iff)
  qed
  then show ?case using wf_init by blast
next
  case (step s from_pos to_pos s')
  obtain fr fc tr tc where ft: "from_pos = (fr, fc)" "to_pos = (tr, tc)"
    by (cases from_pos; cases to_pos) blast
  have acc: "move_piece s (fr, fc) (tr, tc) = Some (Inr True, s')" using step ft by simp
  have "wf_board s'" using reachable_pawns_inside [OF reachable.step [OF step(1) step(2)]] by blast
  moreover have "\<forall>x y q. cell s' x y = Some q \<longrightarrow> piece_type (heap s' q) = KING \<longrightarrow>
      \<not> has_moved (heap s' q) \<longrightarrow> y = 4"
    using accepted_keeps_unmoved_kings_home [OF _ _ acc] step.IH by blast
  ultimately show ?case by blast
qed

lemma reachable_castling_from_home:
  assumes r: "reachable s" and p: "cell s fr fc = Some p" and k: "piece_type (heap s p) = KING"
    and d: "\<bar>fc - tc\<bar> = 2" and acc: "move_piece s (fr, fc) (tr, tc) = Some (Inr True, s')"
  shows "fc = 4"
proof -
  have wf: "wf_board s" using reachable_unmoved_king_home [OF r] by blast
  have v: "is_valid_move s (fr, fc) (tr, tc) = Some (Inr True)"
    using acc by (simp add: move_piece_wf [OF wf] p split: if_splits)
  have "\<not> has_moved (heap s p)" using king_castle_valid [OF wf p k d v] by blast
  then show ?thesis using reachable_unmoved_king_home [OF r] p k by blast
qed

lemma reachable_castling_relocates_rook:
  assumes r: "reachable s" and p: "cell s fr fc = Some p" and k: "piece_type (heap s p) = KING"
    and d: "\<bar>fc - tc\<bar> = 2" and acc: "move_piece s (fr, fc) (tr, tc) = Some (Inr True, s')"
  shows "\<exists>r. cell s fr (if tc < fc then 0 else 7) = Some r \<and> piece_type (heap s r) = ROOK \<and>
    cell s' fr (if tc < fc then 0 else 7) = None \<and>
    cell s' fr (if tc < fc then 3 else 5) = Some r \<and> has_moved (heap s' r) \<and>
    cell s' tr tc = Some p \<and> cell s' fr fc = None \<and> has_moved (heap s' p) \<and>
    current_turn s' = other (current_turn s)"
proof -
  have wf: "wf_board s" using reachable_unmoved_king_home [OF r] by blast
  have fc: "fc = 4" using reachable_castling_from_home [OF r p k d acc] .
  have tc: "tc = 2 \<or> tc = 6" using d fc by auto
  show ?thesis
    using castling_relocates_rook [OF wf p [unfolded fc] k d [unfolded fc] acc [unfolded fc]] tc fc
    by auto
qed

end
